theory Spec2Isabelle
  imports Complex_Main "HOL-Library.Word"
begin

section \<open>Skeleton consensus and annotation smoothing of SyConn\<close>

text \<open>
  A shallow embedding of the skeleton functions of
  \<^verbatim>\<open>syconn/reps/super_segmentation_helper.py\<close>. Floating-point numbers are
  modelled by the reals, except in the Stitcher, which compares two distances computed in
  different precisions and is modelled with rounding; numpy arrays are lists;
  the Python dictionary \<^verbatim>\<open>sso.skeleton\<close> is a map from keys to arrays; exceptions
  are values of the type \<open>error\<close>.
\<close>

subsection \<open>Errors\<close>

datatype error =
    ValueError
  | IndexError
  | KeyError
  | AssertionError
  | NetworkXError
  | NodeNotFound

subsection \<open>numpy helpers\<close>

text \<open>
  \<^verbatim>\<open>np.unique(a, return_counts=True)\<close>: the sorted distinct values of \<open>a\<close>, each
  with the number of its occurrences.
\<close>

definition np_unique :: "int list \<Rightarrow> int list" where
  "np_unique xs = sort (remdups xs)"

definition np_unique_counts :: "int list \<Rightarrow> nat list" where
  "np_unique_counts xs = map (count_list xs) (np_unique xs)"

text \<open>
  \<^verbatim>\<open>np.argmax\<close>: the index of the first maximum. The three accumulators are the
  current index, the best index and the best value so far.
\<close>

fun np_argmax_from :: "nat \<Rightarrow> nat \<Rightarrow> nat \<Rightarrow> nat list \<Rightarrow> nat" where
  "np_argmax_from i bi bv [] = bi"
| "np_argmax_from i bi bv (x # xs) =
     (if bv < x then np_argmax_from (Suc i) i x xs else np_argmax_from (Suc i) bi bv xs)"

definition np_argmax :: "nat list \<Rightarrow> error + nat" where
  "np_argmax xs = (case xs of [] \<Rightarrow> Inl ValueError | x # ys \<Rightarrow> Inr (np_argmax_from 1 0 x ys))"

text \<open>
  Fancy indexing \<^verbatim>\<open>arr[ixs]\<close> with non-negative indices: IndexError as soon as one
  index is out of range.
\<close>

fun np_take :: "'a list \<Rightarrow> nat list \<Rightarrow> error + 'a list" where
  "np_take arr [] = Inr []"
| "np_take arr (i # is) =
     (if i < length arr
      then (case np_take arr is of Inl e \<Rightarrow> Inl e | Inr vs \<Rightarrow> Inr (arr ! i # vs))
      else Inl IndexError)"

text \<open>
  The two lines \<^verbatim>\<open>vals, cnts = np.unique(a, return_counts=True)\<close> and
  \<^verbatim>\<open>c = vals[np.argmax(cnts)]\<close>: the most frequent value, the smallest one on a tie.
\<close>

definition most_frequent :: "int list \<Rightarrow> error + int" where
  "most_frequent vals =
     (case np_argmax (np_unique_counts vals) of
        Inl e \<Rightarrow> Inl e
      | Inr i \<Rightarrow> Inr (np_unique vals ! i))"

text \<open>Python's \<^verbatim>\<open>"%d" % n\<close> for an integer \<open>n\<close>.\<close>

definition digit_char :: "nat \<Rightarrow> char" where
  "digit_char d = ''0123456789'' ! d"

fun str_of_nat :: "nat \<Rightarrow> string" where
  "str_of_nat n = (if n < 10 then [digit_char n] else str_of_nat (n div 10) @ [digit_char (n mod 10)])"

definition str_of_int :: "int \<Rightarrow> string" where
  "str_of_int i = (if i < 0 then CHR ''-'' # str_of_nat (nat (- i)) else str_of_nat (nat i))"

subsection \<open>Weighted graphs and the bounded shortest-path search\<close>

text \<open>
  Modelled from the spec: \<^verbatim>\<open>sso.weighted_graph()\<close> is a method of the
  SuperSegmentationObject class, which is not among the sources. The spec gives the
  Window Aggregator a ``SkeletonGraph with physical edge weights'': the nodes in
  iteration order and the undirected edges, each with its weight.
\<close>

record wgraph =
  wg_nodes :: "nat list"
  wg_edges :: "(nat \<times> nat \<times> real) list"

definition number_of_nodes :: "wgraph \<Rightarrow> nat" where
  "number_of_nodes g = length (wg_nodes g)"

text \<open>The adjacency of a node: its neighbours with the weight of the joining edge.\<close>

fun adj_of :: "(nat \<times> nat \<times> real) list \<Rightarrow> nat \<Rightarrow> (nat \<times> real) list" where
  "adj_of [] v = []"
| "adj_of ((a, b, w) # es) v =
     (if a = v then (b, w) # adj_of es v
      else if b = v then (a, w) # adj_of es v
      else adj_of es v)"

text \<open>
  The search of networkx behind \<^verbatim>\<open>nx.single_source_dijkstra_path(g, n, cutoff)\<close>.
  The state is the dictionary of final distances \<open>dst\<close>, the dictionary of tentative
  distances \<open>seen\<close>, the priority queue \<open>fringe\<close> (a list, popped at its first entry
  of least distance, which is the order of the heap of triples with a counter) and the
  keys of the dictionary \<open>paths\<close> in insertion order. A neighbour whose distance would
  exceed the cutoff is not entered.
\<close>

type_synonym dstate = "(nat \<rightharpoonup> real) \<times> (nat \<rightharpoonup> real) \<times> (real \<times> nat) list \<times> nat list"

fun relax :: "real \<Rightarrow> real \<Rightarrow> dstate \<Rightarrow> (nat \<times> real) \<Rightarrow> error + dstate" where
  "relax cutoff dv (dst, seen, fringe, paths) (u, cost) =
     (let vu_dist = dv + cost in
      if vu_dist > cutoff then Inr (dst, seen, fringe, paths)
      else (case dst u of
              Some u_dist \<Rightarrow>
                (if vu_dist < u_dist then Inl ValueError
                 else Inr (dst, seen, fringe, paths))
            | None \<Rightarrow>
                (if seen u = None \<or> vu_dist < the (seen u)
                 then Inr (dst, seen(u \<mapsto> vu_dist), fringe @ [(vu_dist, u)],
                           if u \<in> set paths then paths else paths @ [u])
                 else Inr (dst, seen, fringe, paths))))"

fun relax_all :: "real \<Rightarrow> real \<Rightarrow> dstate \<Rightarrow> (nat \<times> real) list \<Rightarrow> error + dstate" where
  "relax_all cutoff dv st [] = Inr st"
| "relax_all cutoff dv st (e # es) =
     (case relax cutoff dv st e of Inl err \<Rightarrow> Inl err | Inr st' \<Rightarrow> relax_all cutoff dv st' es)"

text \<open>\<^verbatim>\<open>heappop\<close>: the first entry of least distance, and the queue without it.\<close>

fun pop_min :: "(real \<times> nat) \<Rightarrow> (real \<times> nat) list \<Rightarrow> (real \<times> nat) \<times> (real \<times> nat) list" where
  "pop_min x [] = (x, [])"
| "pop_min x (y # ys) =
     (case pop_min y ys of
        (m, rest) \<Rightarrow> if fst x \<le> fst m then (x, y # ys) else (m, x # rest))"

text \<open>
  The loop \<^verbatim>\<open>while fringe\<close>. An entry whose node already has its final distance is
  dropped; otherwise the node is finalised and its neighbours are relaxed.
\<close>

definition universe :: "wgraph \<Rightarrow> nat set" where
  "universe g = set (map fst (wg_edges g)) \<union> set (map (fst \<circ> snd) (wg_edges g))"

function dijkstra_loop :: "wgraph \<Rightarrow> real \<Rightarrow> dstate \<Rightarrow> error + dstate" where
  "dijkstra_loop g cutoff (dst, seen, [], paths) = Inr (dst, seen, [], paths)"
| "dijkstra_loop g cutoff (dst, seen, x # xs, paths) =
     (case pop_min x xs of
        ((d, v), rest) \<Rightarrow>
          (if dst v \<noteq> None then dijkstra_loop g cutoff (dst, seen, rest, paths)
           else (case relax_all cutoff d (dst(v \<mapsto> d), seen, rest, paths) (adj_of (wg_edges g) v) of
                   Inl err \<Rightarrow> Inl err
                 | Inr st \<Rightarrow> dijkstra_loop g cutoff st)))"
  by pat_completeness auto

text \<open>Every pass either drops a stale entry or finalises a node, so the search ends.\<close>

lemma pop_min_props:
  "pop_min x xs = (m, rest) \<Longrightarrow> m \<in> set (x # xs) \<and> set rest \<subseteq> set (x # xs) \<and> length rest = length xs"
proof (induction x xs arbitrary: m rest rule: pop_min.induct)
  case (1 x)
  then show ?case by simp
next
  case (2 x y ys)
  obtain m' rest' where p: "pop_min y ys = (m', rest')" by (cases "pop_min y ys")
  from "2.IH"[OF p] have ih: "m' \<in> set (y # ys)" "set rest' \<subseteq> set (y # ys)" "length rest' = length ys"
    by auto
  from "2.prems" p ih show ?case
    by (auto split: if_splits)
qed

lemma relax_props:
  "relax cutoff dv (dst, seen, fr, ps) (u, c) = Inr (dst', seen', fr', ps') \<Longrightarrow>
     dst' = dst \<and> snd ` set fr' \<subseteq> snd ` set fr \<union> {u}"
  unfolding relax.simps Let_def
  by (cases "dv + c > cutoff"; cases "dst u"; cases "seen u = None \<or> dv + c < the (seen u)")
     (auto split: if_splits)

lemma relax_all_props:
  "relax_all cutoff dv (dst, seen, fr, ps) es = Inr (dst', seen', fr', ps') \<Longrightarrow>
     dst' = dst \<and> snd ` set fr' \<subseteq> snd ` set fr \<union> fst ` set es"
proof (induction es arbitrary: dst seen fr ps)
  case Nil
  then show ?case by simp
next
  case (Cons e es)
  obtain u c where e: "e = (u, c)" by (cases e)
  show ?case
  proof (cases "relax cutoff dv (dst, seen, fr, ps) (u, c)")
    case (Inl err)
    with Cons.prems e show ?thesis by (simp del: relax.simps)
  next
    case (Inr st)
    obtain d1 s1 f1 p1 where st: "st = (d1, s1, f1, p1)" by (cases st)
    from Inr st have r: "relax cutoff dv (dst, seen, fr, ps) (u, c) = Inr (d1, s1, f1, p1)" by simp
    from Cons.prems e r have ra: "relax_all cutoff dv (d1, s1, f1, p1) es = Inr (dst', seen', fr', ps')"
      by (simp del: relax.simps)
    note a = relax_props[OF r]
    note b = Cons.IH[OF ra]
    have a1: "d1 = dst" by (rule conjunct1[OF a])
    have a2: "snd ` set f1 \<subseteq> snd ` set fr \<union> {u}" by (rule conjunct2[OF a])
    have b1: "dst' = d1" by (rule conjunct1[OF b])
    have b2: "snd ` set fr' \<subseteq> snd ` set f1 \<union> fst ` set es" by (rule conjunct2[OF b])
    have c: "fst ` set (e # es) = insert u (fst ` set es)" using e by simp
    have "snd ` set fr' \<subseteq> snd ` set fr \<union> fst ` set (e # es)"
      unfolding c using a2 b2 by blast
    with a1 b1 show ?thesis by simp
  qed
qed

lemma adj_of_universe: "fst ` set (adj_of (wg_edges g) v) \<subseteq> universe g"
proof -
  have "fst ` set (adj_of es v) \<subseteq> set (map fst es) \<union> set (map (fst \<circ> snd) es)" for es
    by (induction es v rule: adj_of.induct) auto
  then show ?thesis by (simp add: universe_def)
qed

lemma finite_universe: "finite (universe g)"
  by (simp add: universe_def)

termination dijkstra_loop
proof (relation "inv_image (finite_psubset <*lex*> less_than)
         (\<lambda>(g, cutoff, (dst, seen, fr, ps)). ((universe g \<union> snd ` set fr) - dom dst, length fr))", goal_cases)
  case 1
  show ?case by (intro wf_inv_image wf_lex_prod wf_finite_psubset wf_less_than)
next
  case (2 g cutoff dst seen x xs paths m rest d v)
  from 2 have p: "pop_min x xs = ((d, v), rest)" by simp
  from pop_min_props[OF p] have "set rest \<subseteq> set (x # xs)" "length rest = length xs" by auto
  then have sub: "(universe g \<union> snd ` set rest) - dom dst \<subseteq> (universe g \<union> snd ` set (x # xs)) - dom dst"
    and len: "length rest < length (x # xs)" by auto
  have fin: "finite ((universe g \<union> snd ` set (x # xs)) - dom dst)"
    by (simp add: finite_universe)
  from sub fin len
  have "(((universe g \<union> snd ` set rest) - dom dst, length rest),
         ((universe g \<union> snd ` set (x # xs)) - dom dst, length (x # xs)))
        \<in> finite_psubset <*lex*> less_than"
    unfolding in_lex_prod finite_psubset_def by blast
  then show ?case
    unfolding in_inv_image by (simp only: split_conv)
next
  case (3 g cutoff dst seen x xs paths m rest d v st)
  from 3 have p: "pop_min x xs = ((d, v), rest)" by simp
  from pop_min_props[OF p] have r: "(d, v) \<in> set (x # xs)" "set rest \<subseteq> set (x # xs)" by auto
  obtain d1 s1 f1 p1 where st: "st = (d1, s1, f1, p1)" by (cases st)
  from 3 have ra: "relax_all cutoff d (dst(v \<mapsto> d), seen, rest, paths) (adj_of (wg_edges g) v) = Inr (d1, s1, f1, p1)"
    by (simp add: st)
  note ra' = relax_all_props[OF ra]
  have a1: "d1 = dst(v \<mapsto> d)" by (rule conjunct1[OF ra'])
  have a2: "snd ` set f1 \<subseteq> snd ` set rest \<union> fst ` set (adj_of (wg_edges g) v)"
    by (rule conjunct2[OF ra'])
  from a2 adj_of_universe[of g v]
  have a3: "snd ` set f1 \<subseteq> snd ` set rest \<union> universe g" by blast
  from r(2) have r2: "snd ` set rest \<subseteq> snd ` set (x # xs)" by blast
  from 3 have nv: "v \<notin> dom dst" by auto
  from r have vin: "v \<in> snd ` set (x # xs)" by force
  have dd: "dom d1 = insert v (dom dst)" unfolding a1 by simp
  have sub: "(universe g \<union> snd ` set f1) - dom d1 \<subseteq> (universe g \<union> snd ` set (x # xs)) - dom dst"
    unfolding dd using a3 r2 by blast
  have "v \<in> (universe g \<union> snd ` set (x # xs)) - dom dst" using nv vin by blast
  moreover have "v \<notin> (universe g \<union> snd ` set f1) - dom d1" unfolding dd by simp
  ultimately have ps: "(universe g \<union> snd ` set f1) - dom d1 \<subset> (universe g \<union> snd ` set (x # xs)) - dom dst"
    using sub by blast
  have fin: "finite ((universe g \<union> snd ` set (x # xs)) - dom dst)"
    by (simp add: finite_universe)
  from ps fin have "((universe g \<union> snd ` set f1) - dom d1, (universe g \<union> snd ` set (x # xs)) - dom dst) \<in> finite_psubset"
    unfolding finite_psubset_def by blast
  then have "(((universe g \<union> snd ` set f1) - dom d1, length f1),
         ((universe g \<union> snd ` set (x # xs)) - dom dst, length (x # xs)))
        \<in> finite_psubset <*lex*> less_than"
    unfolding in_lex_prod by blast
  then show ?case
    unfolding st in_inv_image by (simp only: split_conv)
qed

text \<open>
  \<^verbatim>\<open>nx.single_source_dijkstra_path(g, source, cutoff)\<close>: the keys of the returned
  dictionary of paths. A source that is not a node of the graph is an error.
\<close>

definition single_source_dijkstra_path :: "wgraph \<Rightarrow> nat \<Rightarrow> real \<Rightarrow> error + nat list" where
  "single_source_dijkstra_path g source cutoff =
     (if source \<notin> set (wg_nodes g) then Inl NodeNotFound
      else (case dijkstra_loop g cutoff (Map.empty, [source \<mapsto> 0], [(0, source)], [source]) of
              Inl err \<Rightarrow> Inl err
            | Inr (dst, seen, fringe, paths) \<Rightarrow> Inr paths))"

subsection \<open>Window Aggregator: \<^verbatim>\<open>majorityvote_skeleton_property\<close>\<close>

text \<open>The dictionary \<^verbatim>\<open>sso.skeleton\<close>, restricted to its per-node property arrays.\<close>

type_synonym skeleton = "string \<rightharpoonup> int list"

text \<open>
  One pass of the loop body for the node \<open>n\<close>: the window of \<open>n\<close>, the values of the
  property on it (read from the skeleton at this moment), and their most frequent value.
\<close>

definition vote_node :: "skeleton \<Rightarrow> wgraph \<Rightarrow> string \<Rightarrow> int \<Rightarrow> nat \<Rightarrow> error + int" where
  "vote_node sk g prop_key max_dist n =
     (case single_source_dijkstra_path g n (real_of_int max_dist) of
        Inl err \<Rightarrow> Inl err
      | Inr neighs \<Rightarrow>
          (case sk prop_key of
             None \<Rightarrow> Inl KeyError
           | Some arr \<Rightarrow>
               (case np_take arr neighs of
                  Inl err \<Rightarrow> Inl err
                | Inr vals \<Rightarrow> most_frequent vals)))"

text \<open>The loop \<^verbatim>\<open>for n in range(g.number_of_nodes())\<close> with the list \<open>avg_prop\<close>.\<close>

fun vote_loop :: "skeleton \<Rightarrow> wgraph \<Rightarrow> string \<Rightarrow> int \<Rightarrow> nat list \<Rightarrow> int list \<Rightarrow> error + int list" where
  "vote_loop sk g prop_key max_dist [] avg_prop = Inr avg_prop"
| "vote_loop sk g prop_key max_dist (n # ns) avg_prop =
     (case vote_node sk g prop_key max_dist n of
        Inl err \<Rightarrow> Inl err
      | Inr c \<Rightarrow> vote_loop sk g prop_key max_dist ns (avg_prop @ [c]))"

text \<open>The key \<^verbatim>\<open>"%s_avg%d" % (prop_key, max_dist)\<close>.\<close>

definition avg_key :: "string \<Rightarrow> int \<Rightarrow> string" where
  "avg_key prop_key max_dist = prop_key @ ''_avg'' @ str_of_int max_dist"

text \<open>
  The function returns its result (an exception, the array when \<open>return_res\<close> is set,
  or nothing) together with the skeleton dictionary as the call leaves it.
\<close>

definition majorityvote_skeleton_property ::
  "skeleton \<Rightarrow> wgraph \<Rightarrow> string \<Rightarrow> int \<Rightarrow> bool \<Rightarrow> (error + int list option) \<times> skeleton" where
  "majorityvote_skeleton_property sk g prop_key max_dist return_res =
     (if sk prop_key = None then (Inl ValueError, sk)
      else (case vote_loop sk g prop_key max_dist [0..<number_of_nodes g] [] of
              Inl err \<Rightarrow> (Inl err, sk)
            | Inr avg_prop \<Rightarrow>
                if return_res then (Inr (Some avg_prop), sk)
                else (Inr None, sk(avg_key prop_key max_dist \<mapsto> avg_prop))))"

subsection \<open>Properties of the Window Aggregator\<close>

lemma avg_key_neq: "avg_key prop_key max_dist \<noteq> prop_key"
proof
  assume "avg_key prop_key max_dist = prop_key"
  then have "length (avg_key prop_key max_dist) = length prop_key" by simp
  then show False by (simp add: avg_key_def)
qed

lemma vote_loop_result:
  "vote_loop sk g k d ns acc = Inr avg \<Longrightarrow>
     \<exists>vs. avg = acc @ vs \<and> length vs = length ns \<and>
          (\<forall>i<length ns. vote_node sk g k d (ns ! i) = Inr (vs ! i))"
proof (induction ns arbitrary: acc)
  case Nil
  then show ?case by simp
next
  case (Cons n ns)
  from Cons.prems obtain c where c: "vote_node sk g k d n = Inr c"
    and l: "vote_loop sk g k d ns (acc @ [c]) = Inr avg"
    by (auto split: sum.splits)
  from Cons.IH[OF l] obtain vs where vs: "avg = (acc @ [c]) @ vs" "length vs = length ns"
    "\<forall>i<length ns. vote_node sk g k d (ns ! i) = Inr (vs ! i)" by blast
  have "\<forall>i<length (n # ns). vote_node sk g k d ((n # ns) ! i) = Inr ((c # vs) ! i)"
  proof (intro allI impI)
    fix i assume "i < length (n # ns)"
    then show "vote_node sk g k d ((n # ns) ! i) = Inr ((c # vs) ! i)"
      using c vs(3) by (cases i) auto
  qed
  with vs(1,2) show ?case
    by (intro exI[of _ "c # vs"]) simp
qed

lemma vote_loop_range:
  assumes "vote_loop sk g k d [0..<N] [] = Inr avg"
  shows "length avg = N \<and> (\<forall>n<N. vote_node sk g k d n = Inr (avg ! n))"
proof -
  from vote_loop_result[OF assms] obtain vs where vs: "avg = [] @ vs" "length vs = length [0..<N]"
    "\<forall>i<length [0..<N]. vote_node sk g k d ([0..<N] ! i) = Inr (vs ! i)" by blast
  then show ?thesis by simp
qed

text \<open>
  Claim C9. A call of the Window Aggregator with a property key that is absent from the
  skeleton raises ValueError at once: the result is the exception, and the skeleton
  dictionary is left as it was, so no smoothed value and no derived key is written.
\<close>

theorem majorityvote_missing_key:
  "sk prop_key = None \<Longrightarrow>
     majorityvote_skeleton_property sk g prop_key max_dist return_res = (Inl ValueError, sk)"
  by (simp add: majorityvote_skeleton_property_def)

theorem majorityvote_missing_key_witness:
  "[''myelin'' \<mapsto> [1, 0, 0]] ''axoness'' = None \<and>
   majorityvote_skeleton_property [''myelin'' \<mapsto> [1, 0, 0]]
      \<lparr>wg_nodes = [0, 1, 2], wg_edges = [(0, 1, 5), (1, 2, 7)]\<rparr> ''axoness'' 10000 False
     = (Inl ValueError, [''myelin'' \<mapsto> [1, 0, 0]])"
  using majorityvote_missing_key [of "[''myelin'' \<mapsto> [1, 0, 0]]" "''axoness''"
      "\<lparr>wg_nodes = [0, 1, 2], wg_edges = [(0, 1, 5), (1, 2, 7)]\<rparr>" 10000 False]
  by simp

text \<open>
  Claim C7. The Window Aggregator reads, then writes in one batch. Whatever the outcome,
  the array under \<open>prop_key\<close> is unchanged and no key other than the derived key
  \<open>prop_key + "_avg" + max_dist\<close> is touched. After an exception the skeleton is
  unchanged. After a normal return there is an array \<open>avg\<close> with one entry for each
  node, each entry being the vote of that node on the original skeleton \<open>sk\<close>; it is
  the returned value when \<open>return_res\<close> is set (the skeleton is then unchanged), and
  otherwise it is stored under the derived key.
\<close>

theorem majorityvote_read_then_write:
  "(case majorityvote_skeleton_property sk g prop_key max_dist return_res of
      (res, sk') \<Rightarrow>
        sk' prop_key = sk prop_key \<and>
        (\<forall>k. k \<noteq> avg_key prop_key max_dist \<longrightarrow> sk' k = sk k) \<and>
        (case res of
           Inl err \<Rightarrow> sk' = sk
         | Inr r \<Rightarrow>
             (\<exists>avg. length avg = number_of_nodes g \<and>
                (\<forall>n<number_of_nodes g. vote_node sk g prop_key max_dist n = Inr (avg ! n)) \<and>
                (if return_res then r = Some avg \<and> sk' = sk
                 else r = None \<and> sk' = sk(avg_key prop_key max_dist \<mapsto> avg)))))"
proof (cases "sk prop_key = None")
  case True
  then show ?thesis by (simp add: majorityvote_skeleton_property_def)
next
  case False
  show ?thesis
  proof (cases "vote_loop sk g prop_key max_dist [0..<number_of_nodes g] []")
    case (Inl err)
    with False show ?thesis by (simp add: majorityvote_skeleton_property_def)
  next
    case (Inr avg)
    note r = vote_loop_range[OF Inr]
    show ?thesis
    proof (cases return_res)
      case True
      with False Inr r show ?thesis
        by (auto simp: majorityvote_skeleton_property_def)
    next
      case rr: False
      have ne: "prop_key \<noteq> avg_key prop_key max_dist" using avg_key_neq[of prop_key max_dist] by (rule not_sym)
      with False Inr r rr show ?thesis
        by (auto simp: majorityvote_skeleton_property_def)
    qed
  qed
qed

theorem majorityvote_read_then_write_witness:
  "majorityvote_skeleton_property [''myelin'' \<mapsto> [1, 0, 0]]
      \<lparr>wg_nodes = [0, 1, 2], wg_edges = [(0, 1, 5), (1, 2, 7)]\<rparr> ''myelin'' 12 False
     = (Inr None, [''myelin'' \<mapsto> [1, 0, 0], ''myelin_avg12'' \<mapsto> [0, 0, 0]]) \<and>
   vote_node [''myelin'' \<mapsto> [1, 0, 0]]
      \<lparr>wg_nodes = [0, 1, 2], wg_edges = [(0, 1, 5), (1, 2, 7)]\<rparr> ''myelin'' 12 0 = Inr 0"
  using majorityvote_read_then_write [where sk = "[''myelin'' \<mapsto> [1, 0, 0]]"
      and g = "\<lparr>wg_nodes = [0, 1, 2], wg_edges = [(0, 1, 5), (1, 2, 7)]\<rparr>"
      and prop_key = "''myelin''" and max_dist = 12 and return_res = False]
  by (simp add: majorityvote_skeleton_property_def vote_node_def single_source_dijkstra_path_def
      number_of_nodes_def most_frequent_def np_unique_def np_unique_counts_def np_argmax_def
      avg_key_def str_of_int_def digit_char_def upt_rec)

lemma relax_all_cutoff0:
  assumes "\<forall>(u, w) \<in> set es. cutoff < dv + w"
  shows "relax_all cutoff dv st es = Inr st"
  using assms
proof (induction es)
  case Nil
  then show ?case by simp
next
  case (Cons e es)
  obtain u w where e: "e = (u, w)" by (cases e)
  obtain a b c d where st: "st = (a, b, c, d)" by (cases st)
  from Cons.prems e have "cutoff < dv + w" by simp
  then have "relax cutoff dv st e = Inr st" unfolding e st by simp
  moreover from Cons have "relax_all cutoff dv st es = Inr st" by simp
  ultimately show ?case by simp
qed

lemma adj_of_weights:
  assumes "\<forall>(a, b, w) \<in> set es. 0 < w"
  shows "\<forall>(u, w) \<in> set (adj_of es v). 0 < w"
  using assms by (induction es v rule: adj_of.induct) auto

lemma dijkstra_cutoff0:
  assumes "\<forall>(a, b, w) \<in> set (wg_edges g). 0 < w" and "n \<in> set (wg_nodes g)"
  shows "single_source_dijkstra_path g n 0 = Inr [n]"
proof -
  from adj_of_weights[OF assms(1)] have "\<forall>(u, w) \<in> set (adj_of (wg_edges g) n). (0::real) < 0 + w"
    by auto
  from relax_all_cutoff0[OF this]
  have r: "relax_all 0 0 st (adj_of (wg_edges g) n) = Inr st" for st by simp
  show ?thesis
    using assms(2) by (simp add: single_source_dijkstra_path_def r)
qed

lemma most_frequent_single: "most_frequent [x] = Inr x"
  by (simp add: most_frequent_def np_unique_def np_unique_counts_def np_argmax_def)

lemma vote_node_cutoff0:
  assumes "\<forall>(a, b, w) \<in> set (wg_edges g). 0 < w" and "n \<in> set (wg_nodes g)"
    and "sk k = Some arr" and "n < length arr"
  shows "vote_node sk g k 0 n = Inr (arr ! n)"
  using assms(3,4) by (simp add: vote_node_def dijkstra_cutoff0[OF assms(1,2)] most_frequent_single)

lemma vote_loop_cutoff0:
  assumes "\<forall>(a, b, w) \<in> set (wg_edges g). 0 < w" and "sk k = Some arr"
    and "set ns \<subseteq> set (wg_nodes g)" and "\<forall>n \<in> set ns. n < length arr"
  shows "vote_loop sk g k 0 ns acc = Inr (acc @ map ((!) arr) ns)"
  using assms(3,4)
proof (induction ns arbitrary: acc)
  case Nil
  then show ?case by simp
next
  case (Cons n ns)
  from Cons.prems have "n \<in> set (wg_nodes g)" "n < length arr" by auto
  with assms(1,2) have "vote_node sk g k 0 n = Inr (arr ! n)"
    by (intro vote_node_cutoff0[where sk = sk and k = k and arr = arr and g = g and n = n])
  moreover from Cons have "vote_loop sk g k 0 ns (acc @ [arr ! n]) = Inr ((acc @ [arr ! n]) @ map ((!) arr) ns)"
    by simp
  ultimately show ?case by simp
qed

text \<open>
  Claim C6. On a skeleton whose edge weights are all positive, whose graph has the nodes
  \<open>0, \<dots>, N - 1\<close> and whose property array has one entry for each node, the
  Window Aggregator with maximum traversal distance 0 yields the property array itself:
  it is the returned array with \<open>return_res\<close>, and the array stored under the
  derived key without.
\<close>

theorem majorityvote_distance_zero_identity:
  assumes "\<forall>(a, b, w) \<in> set (wg_edges g). 0 < w"
    and "wg_nodes g = [0..<length arr]"
    and "sk prop_key = Some arr"
  shows "majorityvote_skeleton_property sk g prop_key 0 True = (Inr (Some arr), sk) \<and>
         majorityvote_skeleton_property sk g prop_key 0 False
           = (Inr None, sk(avg_key prop_key 0 \<mapsto> arr))"
proof -
  have "vote_loop sk g prop_key 0 [0..<number_of_nodes g] [] = Inr ([] @ map ((!) arr) [0..<number_of_nodes g])"
    by (rule vote_loop_cutoff0[where sk = sk and k = prop_key and arr = arr and g = g])
       (simp_all add: assms number_of_nodes_def)
  moreover have "map ((!) arr) [0..<number_of_nodes g] = arr"
    by (simp add: number_of_nodes_def assms(2) map_nth)
  ultimately have "vote_loop sk g prop_key 0 [0..<number_of_nodes g] [] = Inr arr" by simp
  then show ?thesis using assms(3) by (simp add: majorityvote_skeleton_property_def)
qed

theorem majorityvote_distance_zero_identity_witness:
  "majorityvote_skeleton_property [''myelin'' \<mapsto> [1, 0, 0]]
      \<lparr>wg_nodes = [0, 1, 2], wg_edges = [(0, 1, 5), (1, 2, 7)]\<rparr> ''myelin'' 0 True
     = (Inr (Some [1, 0, 0]), [''myelin'' \<mapsto> [1, 0, 0]])"
  using majorityvote_distance_zero_identity [of
      "\<lparr>wg_nodes = [0, 1, 2], wg_edges = [(0, 1, 5), (1, 2, 7)]\<rparr>" "[1, 0, 0]"
      "[''myelin'' \<mapsto> [1, 0, 0]]" "''myelin''"]
  by (simp add: upt_rec)

subsection \<open>Geometry\<close>

text \<open>
  Skeleton nodes are rows of a \<^verbatim>\<open>uint32\<close> array; scaled positions, mesh vertices and
  the scaling vector are triples of floating-point numbers.
\<close>

type_synonym position = "32 word \<times> 32 word \<times> 32 word"
type_synonym vec3 = "real \<times> real \<times> real"

text \<open>\<^verbatim>\<open>np.linalg.norm\<close> of a vector of three components.\<close>

definition norm3 :: "vec3 \<Rightarrow> real" where
  "norm3 v = (case v of (x, y, z) \<Rightarrow> sqrt (x\<^sup>2 + y\<^sup>2 + z\<^sup>2))"

definition vsub :: "vec3 \<Rightarrow> vec3 \<Rightarrow> vec3" where
  "vsub a b = (case a of (ax, ay, az) \<Rightarrow> case b of (bx, by, bz) \<Rightarrow> (ax - bx, ay - by, az - bz))"

definition vmul :: "vec3 \<Rightarrow> vec3 \<Rightarrow> vec3" where
  "vmul a b = (case a of (ax, ay, az) \<Rightarrow> case b of (bx, by, bz) \<Rightarrow> (ax * bx, ay * by, az * bz))"

text \<open>The conversion of an unsigned row to floating point (\<^verbatim>\<open>astype(np.float32)\<close>, or the
  promotion in a product with a float array).\<close>

definition to_float :: "position \<Rightarrow> vec3" where
  "to_float p = (case p of (x, y, z) \<Rightarrow> (real (unat x), real (unat y), real (unat z)))"

text \<open>\<^verbatim>\<open>node * scaling\<close>: the physical position of a node.\<close>

definition scaled :: "position \<Rightarrow> vec3 \<Rightarrow> vec3" where
  "scaled p scaling = vmul (to_float p) scaling"

subsection \<open>Radius Estimator: \<^verbatim>\<open>radius_correction_found_vertices\<close>\<close>

text \<open>
  A floating-point value is a real number or is not finite (\<^verbatim>\<open>inf\<close> or \<^verbatim>\<open>nan\<close>):
  the k-d tree reports the distance \<^verbatim>\<open>inf\<close> for a neighbour that does not exist.
\<close>

datatype npfloat = Finite real | NonFinite

fun nf_map :: "(real \<Rightarrow> real) \<Rightarrow> npfloat \<Rightarrow> npfloat" where
  "nf_map f (Finite x) = Finite (f x)"
| "nf_map f NonFinite = NonFinite"

fun nf_mean2 :: "npfloat \<Rightarrow> npfloat \<Rightarrow> npfloat" where
  "nf_mean2 (Finite a) (Finite b) = Finite ((a + b) / 2)"
| "nf_mean2 a b = NonFinite"

fun finites :: "npfloat list \<Rightarrow> real list" where
  "finites [] = []"
| "finites (Finite x # xs) = x # finites xs"
| "finites (NonFinite # xs) = finites xs"

text \<open>The entry at index \<open>i\<close> of the sorted array, the values that are not finite last.\<close>

definition sorted_at :: "npfloat list \<Rightarrow> nat \<Rightarrow> npfloat" where
  "sorted_at xs i = (let fin = sort (finites xs) in if i < length fin then Finite (fin ! i) else NonFinite)"

text \<open>\<^verbatim>\<open>np.median\<close>: the middle entry of the sorted array, or the mean of the two middle
  entries; \<^verbatim>\<open>nan\<close> for an empty array.\<close>

definition np_median :: "npfloat list \<Rightarrow> npfloat" where
  "np_median xs =
     (let n = length xs in
      if n = 0 then NonFinite
      else if odd n then sorted_at xs (n div 2)
      else nf_mean2 (sorted_at xs (n div 2 - 1)) (sorted_at xs (n div 2)))"

text \<open>
  \<^verbatim>\<open>cKDTree(verts).query(p, k)\<close>: the distances from \<open>p\<close> to its \<open>k\<close> nearest
  vertices in ascending order, filled up with \<^verbatim>\<open>inf\<close> when there are fewer than \<open>k\<close>
  vertices.
\<close>

definition kd_query :: "vec3 list \<Rightarrow> nat \<Rightarrow> vec3 \<Rightarrow> npfloat list" where
  "kd_query verts k p =
     (let ds = sort (map (\<lambda>v. norm3 (vsub v p)) verts)
      in map Finite (take k ds) @ replicate (k - length ds) NonFinite)"

text \<open>The loop \<^verbatim>\<open>for ii, el in enumerate(skel_node)\<close>, writing into the array of diameters.\<close>

fun set_diameters :: "npfloat list list \<Rightarrow> nat list \<Rightarrow> npfloat list \<Rightarrow> error + npfloat list" where
  "set_diameters dists [] diameters = Inr diameters"
| "set_diameters dists (ii # is) diameters =
     (if ii < length diameters
      then set_diameters dists is (diameters[ii := nf_map (\<lambda>m. m * 2 / 10) (np_median (dists ! ii))])
      else Inl IndexError)"

definition radius_correction_found_vertices ::
  "position list \<Rightarrow> npfloat list \<Rightarrow> vec3 list \<Rightarrow> vec3 \<Rightarrow> real \<Rightarrow> nat \<Rightarrow> error + npfloat list" where
  "radius_correction_found_vertices skel_node diameters vert_sparse scaling plump_factor num_found_vertices =
     (let dists = map (\<lambda>p. kd_query vert_sparse num_found_vertices (scaled p scaling)) skel_node in
      case set_diameters dists [0..<length skel_node] diameters of
        Inl err \<Rightarrow> Inl err
      | Inr ds \<Rightarrow> Inr (map (nf_map (\<lambda>d. d * plump_factor)) ds))"

text \<open>
  The words of the specification: the distances to the \<open>k\<close> nearest surface vertices,
  and the median of a list of real numbers.
\<close>

definition k_nearest_dists :: "vec3 list \<Rightarrow> nat \<Rightarrow> vec3 \<Rightarrow> real list" where
  "k_nearest_dists verts k p = take k (sort (map (\<lambda>v. norm3 (vsub v p)) verts))"

definition median :: "real list \<Rightarrow> real" where
  "median xs =
     (let s = sort xs; n = length xs in
      if odd n then s ! (n div 2) else (s ! (n div 2 - 1) + s ! (n div 2)) / 2)"

subsection \<open>Properties of the Radius Estimator\<close>

lemma norm3_axis: "norm3 (x, 0, 0) = \<bar>x\<bar>" "norm3 (0, x, 0) = \<bar>x\<bar>" "norm3 (0, 0, x) = \<bar>x\<bar>"
  by (simp_all add: norm3_def)

lemma finites_map_Finite: "finites (map Finite xs) = xs"
  by (induction xs) auto

lemma np_median_finite:
  assumes "xs \<noteq> []"
  shows "np_median (map Finite xs) = Finite (median xs)"
proof -
  let ?n = "length xs"
  from assms have n: "0 < ?n" by simp
  have a: "i < ?n \<Longrightarrow> sorted_at (map Finite xs) i = Finite (sort xs ! i)" for i
    by (simp add: sorted_at_def finites_map_Finite)
  show ?thesis
  proof (cases "odd ?n")
    case True
    with n a[of "?n div 2"] show ?thesis by (simp add: np_median_def median_def)
  next
    case False
    from n have h1: "?n div 2 < ?n" and h2: "?n div 2 - Suc 0 < ?n" by arith+
    from False n show ?thesis
      by (simp add: np_median_def median_def a[OF h1] a[OF h2] Let_def)
  qed
qed

lemma kd_query_enough:
  assumes "k \<le> length verts"
  shows "kd_query verts k p = map Finite (k_nearest_dists verts k p)"
  using assms by (simp add: kd_query_def k_nearest_dists_def)

lemma length_k_nearest: "k \<le> length verts \<Longrightarrow> length (k_nearest_dists verts k p) = k"
  by (simp add: k_nearest_dists_def)

lemma set_diameters_result:
  assumes "\<forall>i \<in> set is. i < length ds"
  shows "\<exists>ds'. set_diameters dists is ds = Inr ds' \<and> length ds' = length ds \<and>
          (\<forall>j<length ds. ds' ! j =
             (if j \<in> set is then nf_map (\<lambda>m. m * 2 / 10) (np_median (dists ! j)) else ds ! j))"
  using assms
proof (induction "is" arbitrary: ds)
  case Nil
  then show ?case by simp
next
  case (Cons i "is")
  let ?ds1 = "ds[i := nf_map (\<lambda>m. m * 2 / 10) (np_median (dists ! i))]"
  from Cons.prems have i: "i < length ds" and r: "\<forall>i \<in> set is. i < length ?ds1" by auto
  from Cons.IH[OF r] obtain ds' where d: "set_diameters dists is ?ds1 = Inr ds'" "length ds' = length ?ds1"
    "\<forall>j<length ?ds1. ds' ! j =
             (if j \<in> set is then nf_map (\<lambda>m. m * 2 / 10) (np_median (dists ! j)) else ?ds1 ! j)"
    by blast
  have "\<forall>j<length ds. ds' ! j =
             (if j \<in> set (i # is) then nf_map (\<lambda>m. m * 2 / 10) (np_median (dists ! j)) else ds ! j)"
  proof (intro allI impI)
    fix j assume "j < length ds"
    with d(3) show "ds' ! j =
             (if j \<in> set (i # is) then nf_map (\<lambda>m. m * 2 / 10) (np_median (dists ! j)) else ds ! j)"
      by (cases "j = i") auto
  qed
  with d(1,2) i show ?case by simp
qed

text \<open>
  Claim C2, as the code has it. When the mesh has at least \<open>k\<close> vertices and the
  array of diameters has an entry for every node, the Radius Estimator returns, and the
  diameter of every node is the median of the distances to its \<open>k\<close> nearest surface
  vertices, times 2, divided by 10, times \<open>plump_factor\<close>: a fifth of the median, not
  twice the median, scaled by the plump factor.
\<close>

theorem radius_is_fifth_of_median:
  assumes "0 < k" and "k \<le> length vert_sparse"
    and "length skel_node \<le> length diameters" and "ii < length skel_node"
  shows "\<exists>ds. radius_correction_found_vertices skel_node diameters vert_sparse scaling plump_factor k = Inr ds \<and>
           length ds = length diameters \<and>
           ds ! ii = Finite (median (k_nearest_dists vert_sparse k (scaled (skel_node ! ii) scaling))
                              * 2 / 10 * plump_factor)"
proof -
  let ?dists = "map (\<lambda>p. kd_query vert_sparse k (scaled p scaling)) skel_node"
  have "\<forall>i \<in> set [0..<length skel_node]. i < length diameters" using assms(3) by auto
  from set_diameters_result[OF this, of ?dists] obtain ds' where
    d: "set_diameters ?dists [0..<length skel_node] diameters = Inr ds'" "length ds' = length diameters"
    "\<forall>j<length diameters. ds' ! j =
       (if j \<in> set [0..<length skel_node] then nf_map (\<lambda>m. m * 2 / 10) (np_median (?dists ! j)) else diameters ! j)"
    by blast
  from assms(3,4) have ii: "ii < length diameters" "ii \<in> set [0..<length skel_node]" by auto
  let ?near = "k_nearest_dists vert_sparse k (scaled (skel_node ! ii) scaling)"
  have ne: "?near \<noteq> []" using length_k_nearest[OF assms(2), of "scaled (skel_node ! ii) scaling"] assms(1) by auto
  have "?dists ! ii = map Finite ?near"
    using assms(4) by (simp add: kd_query_enough[OF assms(2)])
  then have "np_median (?dists ! ii) = Finite (median ?near)"
    using np_median_finite[OF ne] by simp
  with d(3) ii have "ds' ! ii = Finite (median ?near * 2 / 10)" by simp
  with d(1,2) ii show ?thesis
    by (simp add: radius_correction_found_vertices_def)
qed

theorem radius_is_fifth_of_median_witness:
  "radius_correction_found_vertices [(3, 0, 0)] [Finite 0] [(20, 0, 0), (10, 0, 0), (40, 0, 0)] (2, 2, 2) 3 3
     = Inr [Finite (42 / 5)]"
  using radius_is_fifth_of_median [where k = 3 and vert_sparse = "[(20, 0, 0), (10, 0, 0), (40, 0, 0)]"
      and skel_node = "[(3, 0, 0)]" and diameters = "[Finite 0]" and ii = 0 and scaling = "(2, 2, 2)"
      and plump_factor = 3]
  by (simp add: radius_correction_found_vertices_def kd_query_def np_median_def sorted_at_def
      k_nearest_dists_def median_def scaled_def vmul_def to_float_def vsub_def norm3_axis)

text \<open>
  One node at the origin and one surface vertex at distance 5, with \<open>k = 1\<close> and
  \<open>plump_factor = 1\<close>: the diameter is 1, whereas twice the median times the plump
  factor is 10.
\<close>

theorem radius_twice_median_counterexample:
  "radius_correction_found_vertices [(0, 0, 0)] [Finite 0] [(5, 0, 0)] (1, 1, 1) 1 1 = Inr [Finite 1] \<and>
   2 * median (k_nearest_dists [(5, 0, 0)] 1 (scaled (0, 0, 0) (1, 1, 1))) * 1 = 10"
  by (simp add: radius_correction_found_vertices_def kd_query_def np_median_def sorted_at_def
      k_nearest_dists_def median_def scaled_def vmul_def to_float_def vsub_def norm3_axis)

subsection \<open>Floating-point numbers with rounding\<close>

text \<open>
  The Stitcher compares two distances that are computed in different precisions, so for
  it the rounding is part of the model. A floating-point value is a real number, an
  infinity or \<^verbatim>\<open>nan\<close>; the two zeros are not distinguished.
\<close>

datatype ieee = Num real | PosInf | NegInf | NaN

text \<open>Rounding of a real to the nearest integer, a tie to the even one.\<close>

definition rne :: "real \<Rightarrow> int" where
  "rne x = (let f = \<lfloor>x\<rfloor>; r = x - of_int f
            in if r < 1 / 2 then f else if 1 / 2 < r then f + 1 else if even f then f else f + 1)"

text \<open>The number of binary digits of a natural number, and the binary exponent
  \<open>\<lfloor>log\<^sub>2 \<bar>x\<bar>\<rfloor>\<close> of a real other than 0.\<close>

fun bit_length :: "nat \<Rightarrow> nat" where
  "bit_length n = (if n = 0 then 0 else Suc (bit_length (n div 2)))"

declare bit_length.simps [simp del]

definition ilog2 :: "real \<Rightarrow> int" where
  "ilog2 x = (if 1 \<le> \<bar>x\<bar> then int (bit_length (nat \<lfloor>\<bar>x\<bar>\<rfloor>)) - 1
              else - int (bit_length (nat (\<lceil>1 / \<bar>x\<bar>\<rceil> - 1))))"

text \<open>
  A binary format has \<open>p\<close> digits, the least exponent \<open>emin\<close> of a normal number and the
  greatest exponent \<open>emax\<close>. \<open>fl\<close> rounds a real to the nearest number with \<open>p\<close> digits,
  a tie to the even one; below the least normal number the spacing stays that of the least
  normal numbers. A rounded value of magnitude \<open>2 powi (emax + 1)\<close> or more is an infinity.
  Single precision has 24 digits and the exponents from -126 to 127, double precision 53
  digits and the exponents from -1022 to 1023.
\<close>

definition fl :: "nat \<Rightarrow> int \<Rightarrow> real \<Rightarrow> real" where
  "fl p emin x = (if x = 0 then 0
                  else let u = 2 powi (max (ilog2 x) emin - int p + 1) in of_int (rne (x / u)) * u)"

definition round_to :: "nat \<Rightarrow> int \<Rightarrow> int \<Rightarrow> real \<Rightarrow> ieee" where
  "round_to p emin emax x =
     (let r = fl p emin x
      in if 2 powi (emax + 1) \<le> r then PosInf
         else if r \<le> - (2 powi (emax + 1)) then NegInf else Num r)"

definition float32 :: "real \<Rightarrow> ieee" where
  "float32 = round_to 24 (- 126) 127"

definition float64 :: "real \<Rightarrow> ieee" where
  "float64 = round_to 53 (- 1022) 1023"

text \<open>\<^verbatim>\<open>astype(np.float32)\<close> of a double.\<close>

fun astype_float32 :: "ieee \<Rightarrow> ieee" where
  "astype_float32 (Num a) = float32 a"
| "astype_float32 v = v"

text \<open>Arithmetic and comparison of doubles: the exact result is rounded, and the
  infinities and \<^verbatim>\<open>nan\<close> follow IEEE 754.\<close>

fun f_sub :: "ieee \<Rightarrow> ieee \<Rightarrow> ieee" where
  "f_sub (Num a) (Num b) = float64 (a - b)"
| "f_sub NaN b = NaN"
| "f_sub a NaN = NaN"
| "f_sub PosInf PosInf = NaN"
| "f_sub NegInf NegInf = NaN"
| "f_sub PosInf b = PosInf"
| "f_sub NegInf b = NegInf"
| "f_sub a PosInf = NegInf"
| "f_sub a NegInf = PosInf"

fun f_add :: "ieee \<Rightarrow> ieee \<Rightarrow> ieee" where
  "f_add (Num a) (Num b) = float64 (a + b)"
| "f_add NaN b = NaN"
| "f_add a NaN = NaN"
| "f_add PosInf NegInf = NaN"
| "f_add NegInf PosInf = NaN"
| "f_add PosInf b = PosInf"
| "f_add NegInf b = NegInf"
| "f_add a PosInf = PosInf"
| "f_add a NegInf = NegInf"

fun f_sign :: "ieee \<Rightarrow> int" where
  "f_sign (Num a) = (if a < 0 then - 1 else if a = 0 then 0 else 1)"
| "f_sign PosInf = 1"
| "f_sign NegInf = - 1"
| "f_sign NaN = 0"

fun f_mul :: "ieee \<Rightarrow> ieee \<Rightarrow> ieee" where
  "f_mul (Num a) (Num b) = float64 (a * b)"
| "f_mul NaN b = NaN"
| "f_mul a NaN = NaN"
| "f_mul a b = (if f_sign a * f_sign b = 0 then NaN
                else if 0 < f_sign a * f_sign b then PosInf else NegInf)"

fun f_sqrt :: "ieee \<Rightarrow> ieee" where
  "f_sqrt (Num a) = (if a < 0 then NaN else float64 (sqrt a))"
| "f_sqrt PosInf = PosInf"
| "f_sqrt NegInf = NaN"
| "f_sqrt NaN = NaN"

fun f_less :: "ieee \<Rightarrow> ieee \<Rightarrow> bool" where
  "f_less (Num a) (Num b) = (a < b)"
| "f_less NaN b = False"
| "f_less a NaN = False"
| "f_less NegInf b = (b \<noteq> NegInf)"
| "f_less a PosInf = (a \<noteq> PosInf)"
| "f_less a b = False"

definition f_ge :: "ieee \<Rightarrow> ieee \<Rightarrow> bool" where
  "f_ge a b \<longleftrightarrow> f_less b a \<or> (a = b \<and> a \<noteq> NaN)"

text \<open>Rows of three floating-point values: the difference, the product with the scaling
  vector (an array of doubles), and \<^verbatim>\<open>np.linalg.norm\<close>, the square root of the dot
  product of the row with itself.\<close>

type_synonym fvec3 = "ieee \<times> ieee \<times> ieee"

definition f_vsub :: "fvec3 \<Rightarrow> fvec3 \<Rightarrow> fvec3" where
  "f_vsub a b = (case a of (ax, ay, az) \<Rightarrow> case b of (bx, by, bz) \<Rightarrow>
                   (f_sub ax bx, f_sub ay by, f_sub az bz))"

definition f_scale :: "fvec3 \<Rightarrow> vec3 \<Rightarrow> fvec3" where
  "f_scale a s = (case a of (ax, ay, az) \<Rightarrow> case s of (sx, sy, sz) \<Rightarrow>
                   (f_mul ax (Num sx), f_mul ay (Num sy), f_mul az (Num sz)))"

definition f_norm :: "fvec3 \<Rightarrow> ieee" where
  "f_norm v = (case v of (x, y, z) \<Rightarrow> f_sqrt (f_add (f_add (f_mul x x) (f_mul y y)) (f_mul z z)))"

definition isfinite :: "fvec3 \<Rightarrow> bool" where
  "isfinite v = (case v of (Num x, Num y, Num z) \<Rightarrow> True | _ \<Rightarrow> False)"

definition row_astype_float32 :: "fvec3 \<Rightarrow> fvec3" where
  "row_astype_float32 v = (case v of (x, y, z) \<Rightarrow> (astype_float32 x, astype_float32 y, astype_float32 z))"

text \<open>An unsigned row as doubles (the promotion in a product with an array of doubles,
  which is exact) and as single-precision numbers (\<^verbatim>\<open>astype(np.float32)\<close>, which rounds
  above \<open>2\<^sup>2\<^sup>4\<close>).\<close>

definition to_float64 :: "position \<Rightarrow> fvec3" where
  "to_float64 p = (case p of (x, y, z) \<Rightarrow> (Num (real (unat x)), Num (real (unat y)), Num (real (unat z))))"

definition to_float32 :: "position \<Rightarrow> fvec3" where
  "to_float32 p = (case p of (x, y, z) \<Rightarrow>
                     (float32 (real (unat x)), float32 (real (unat y)), float32 (real (unat z))))"

subsection \<open>Stitcher: bridging two fragments in \<^verbatim>\<open>from_sso_to_netkx_fast\<close>\<close>

text \<open>
  \<^verbatim>\<open>np.argmin\<close>: the index of the first minimum, or of the first \<^verbatim>\<open>nan\<close> if there is
  one (an entry replaces the current minimum unless it is at least the minimum, and the
  search stops at a \<^verbatim>\<open>nan\<close>); ValueError on an empty array.
\<close>

fun np_argmin_from :: "nat \<Rightarrow> nat \<Rightarrow> ieee \<Rightarrow> ieee list \<Rightarrow> nat" where
  "np_argmin_from i bi bv [] = bi"
| "np_argmin_from i bi bv (x # xs) =
     (if bv = NaN then bi
      else if \<not> f_ge x bv then np_argmin_from (Suc i) i x xs
      else np_argmin_from (Suc i) bi bv xs)"

definition np_argmin :: "ieee list \<Rightarrow> error + nat" where
  "np_argmin xs = (case xs of [] \<Rightarrow> Inl ValueError | x # ys \<Rightarrow> Inr (np_argmin_from 1 0 x ys))"

text \<open>
  \<^verbatim>\<open>arr[sv_id_arr == sv]\<close> for the array of node indices: the indices of the nodes of
  one fragment.
\<close>

definition nodes_ix_of :: "nat list \<Rightarrow> nat \<Rightarrow> nat list" where
  "nodes_ix_of sv_id_arr sv = filter (\<lambda>i. sv_id_arr ! i = sv) [0..<length sv_id_arr]"

text \<open>
  \<^verbatim>\<open>cKDTree(data).query(x)\<close> with \<open>k = 1\<close>: for every point of \<open>x\<close> the distance to
  the nearest point of \<open>data\<close> and its index. The tree holds its points as doubles and
  takes the square root of the sum of the squared differences, in the order of the
  coordinates; of several nearest points the first is taken here. The tree refuses data and
  query points that are not finite with a ValueError.
\<close>

definition kd_nearest :: "fvec3 list \<Rightarrow> fvec3 \<Rightarrow> error + (ieee \<times> nat)" where
  "kd_nearest data x =
     (let ds = map (\<lambda>p. f_norm (f_vsub x p)) data in
      case np_argmin ds of Inl err \<Rightarrow> Inl err | Inr i \<Rightarrow> Inr (ds ! i, i))"

fun kd_nearest_all :: "fvec3 list \<Rightarrow> fvec3 list \<Rightarrow> error + (ieee \<times> nat) list" where
  "kd_nearest_all data [] = Inr []"
| "kd_nearest_all data (x # xs) =
     (case kd_nearest data x of
        Inl err \<Rightarrow> Inl err
      | Inr r \<Rightarrow> (case kd_nearest_all data xs of Inl err \<Rightarrow> Inl err | Inr rs \<Rightarrow> Inr (r # rs)))"

definition cKDTree_query :: "fvec3 list \<Rightarrow> fvec3 list \<Rightarrow> error + (ieee \<times> nat) list" where
  "cKDTree_query data x =
     (if \<not> list_all isfinite data then Inl ValueError
      else if \<not> list_all isfinite x then Inl ValueError
      else kd_nearest_all data x)"

text \<open>
  The coordinates that are given to the tree,
  \<^verbatim>\<open>(ssv_skel['nodes'][...] * sso.scaling).astype(np.float32)\<close>: the unsigned row is
  scaled in double precision and the product is rounded to single precision.
\<close>

definition tree_row :: "position list \<Rightarrow> vec3 \<Rightarrow> nat \<Rightarrow> fvec3" where
  "tree_row nodes scaling i = row_astype_float32 (f_scale (to_float64 (nodes ! i)) scaling)"

text \<open>
  \<open>node_dist_check\<close>, the length of the bridge: here the unsigned rows are rounded to
  single precision first and scaled in double precision afterwards, so the value need not
  agree with the distance that the tree returned for the same pair of nodes.
\<close>

definition node_dist_check :: "position list \<Rightarrow> vec3 \<Rightarrow> nat \<Rightarrow> nat \<Rightarrow> ieee" where
  "node_dist_check nodes scaling ix1 ix2 =
     f_norm (f_vsub (f_scale (to_float32 (nodes ! ix1)) scaling)
                    (f_scale (to_float32 (nodes ! ix2)) scaling))"

text \<open>
  The body of the loop over the edges \<open>(e1, e2)\<close> of the supervoxel graph. The result is
  the bridging edge that is appended, or nothing when the pass ends with
  \<^verbatim>\<open>continue\<close>. \<^verbatim>\<open>np.min(dists)\<close> is the entry of \<open>dists\<close> at \<^verbatim>\<open>np.argmin(dists)\<close>.
\<close>

definition stitch_bridge ::
  "position list \<Rightarrow> nat list \<Rightarrow> vec3 \<Rightarrow> real \<Rightarrow> nat \<Rightarrow> nat \<Rightarrow> error + (nat \<times> nat) option" where
  "stitch_bridge nodes sv_id_arr scaling max_edge_length e1 e2 =
     (let nodes1_ix = nodes_ix_of sv_id_arr e1;
          nodes2_ix = nodes_ix_of sv_id_arr e2;
          nodes1 = map (tree_row nodes scaling) nodes1_ix;
          nodes2 = map (tree_row nodes scaling) nodes2_ix
      in if length nodes1 = 0 \<or> length nodes2 = 0 then Inr None
         else (case cKDTree_query nodes1 nodes2 of
                 Inl err \<Rightarrow> Inl err
               | Inr res \<Rightarrow>
                   (let dists = map fst res; node_ixs1 = map snd res in
                    case np_argmin dists of
                      Inl err \<Rightarrow> Inl err
                    | Inr j \<Rightarrow>
                        (let ix2 = nodes2_ix ! j;
                             ix1 = nodes1_ix ! (node_ixs1 ! j);
                             check = node_dist_check nodes scaling ix1 ix2
                         in if f_less (dists ! j) check \<or> f_less (Num max_edge_length) check
                            then Inr None
                            else Inr (Some (ix1, ix2))))))"

text \<open>
  The words of the specification. The physical length of a bridge is \<open>node_dist_check\<close>
  above. The nearest-neighbour distance observed for a node of the one fragment and a
  node of the other is the distance of their two rows in the tree, and the fragments have
  finite rows when every coordinate that is given to the tree is finite.
\<close>

definition tree_dist :: "position list \<Rightarrow> vec3 \<Rightarrow> nat \<Rightarrow> nat \<Rightarrow> ieee" where
  "tree_dist nodes scaling i j = f_norm (f_vsub (tree_row nodes scaling j) (tree_row nodes scaling i))"

definition all_finite :: "position list \<Rightarrow> vec3 \<Rightarrow> nat list \<Rightarrow> bool" where
  "all_finite nodes scaling ixs = list_all (\<lambda>i. isfinite (tree_row nodes scaling i)) ixs"

subsection \<open>Properties of the rounding\<close>

text \<open>The rounding to an integer is off by at most a half, and the exponent is the binary
  exponent.\<close>

lemma rne_nearest: "\<bar>of_int (rne x) - x\<bar> \<le> 1 / 2"
  unfolding rne_def Let_def by (auto simp: abs_le_iff)

lemma bit_length_bounds: "0 < n \<Longrightarrow> 2 ^ (bit_length n - 1) \<le> n \<and> n < 2 ^ bit_length n"
proof (induction n rule: bit_length.induct)
  case (1 n)
  show ?case
  proof (cases "n div 2 = 0")
    case True
    with 1(2) have "n = 1" by (simp add: div_eq_0_iff) 
    then show ?thesis by (simp add: bit_length.simps)
  next
    case False
    with 1 have ih: "2 ^ (bit_length (n div 2) - 1) \<le> n div 2" "n div 2 < 2 ^ bit_length (n div 2)"
      by simp_all
    from False have pos: "0 < bit_length (n div 2)" by (simp add: bit_length.simps)
    have bl: "bit_length n = Suc (bit_length (n div 2))" using 1(2) by (subst bit_length.simps) simp
    from pos obtain k where k: "bit_length (n div 2) = Suc k" by (cases "bit_length (n div 2)") auto
    from ih show ?thesis unfolding bl k by simp linarith
  qed
qed

lemma ilog2_bounds:
  assumes "x \<noteq> 0"
  shows "2 powi ilog2 x \<le> \<bar>x\<bar> \<and> \<bar>x\<bar> < 2 powi (ilog2 x + 1)"
proof (cases "1 \<le> \<bar>x\<bar>")
  case True
  define n where "n = nat \<lfloor>\<bar>x\<bar>\<rfloor>"
  from True have n: "0 < n" by (simp add: n_def) 
  have le: "real n \<le> \<bar>x\<bar>" and lt: "\<bar>x\<bar> < real n + 1" unfolding n_def using True by linarith+
  from bit_length_bounds[OF n] have b: "2 ^ (bit_length n - 1) \<le> n" "n < 2 ^ bit_length n" by simp_all
  from n have pos: "0 < bit_length n" by (simp add: bit_length.simps)
  have i: "ilog2 x = int (bit_length n - 1)" using True pos by (simp add: ilog2_def n_def)
  have i1: "ilog2 x + 1 = int (bit_length n)" using i pos by simp
  have "(2::real) ^ (bit_length n - 1) \<le> real n" using b(1) 
    by (metis of_nat_le_iff of_nat_numeral of_nat_power)
  from this le have "(2::real) ^ (bit_length n - 1) \<le> \<bar>x\<bar>" by (rule order_trans)
  then have 1: "2 powi ilog2 x \<le> \<bar>x\<bar>" unfolding i power_int_of_nat .
  have "real n + 1 \<le> 2 ^ bit_length n" using b(2)
    by (metis Suc_leI of_nat_Suc of_nat_le_iff of_nat_numeral of_nat_power add.commute)
  with lt have "\<bar>x\<bar> < 2 ^ bit_length n" by (rule less_le_trans)
  then have 2: "\<bar>x\<bar> < 2 powi (ilog2 x + 1)" unfolding i1 power_int_of_nat .
  from 1 2 show ?thesis by simp
next
  case False
  then have x1: "\<bar>x\<bar> < 1" by simp
  from assms have x0: "0 < \<bar>x\<bar>" by simp
  define y where "y = 1 / \<bar>x\<bar>"
  from x0 x1 have y1: "1 < y" by (simp add: y_def)
  define m where "m = nat (\<lceil>y\<rceil> - 1)"
  from y1 have m: "0 < m" unfolding m_def by simp
  have lt: "real m < y" and le: "y \<le> real m + 1" unfolding m_def using y1 by linarith+
  define k where "k = bit_length m"
  from bit_length_bounds[OF m] have b: "2 ^ (k - 1) \<le> m" "m < 2 ^ k" by (simp_all add: k_def)
  from m have pos: "0 < k" by (simp add: k_def bit_length.simps)
  have i: "ilog2 x = - int k" using False by (simp add: ilog2_def m_def y_def k_def)
  have "(2::real) ^ (k - 1) \<le> real m" using b(1)
    by (metis of_nat_le_iff of_nat_numeral of_nat_power)
  from this lt have a: "(2::real) ^ (k - 1) < y" by (rule le_less_trans)
  have "real m + 1 \<le> 2 ^ k" using b(2)
    by (metis Suc_leI of_nat_Suc of_nat_le_iff of_nat_numeral of_nat_power add.commute)
  with le have c: "y \<le> 2 ^ k" by (rule order_trans)
  have xy: "\<bar>x\<bar> = inverse y" using x0 by (simp add: y_def)
  have y0: "0 < y" using y1 by simp
  have 1: "2 powi ilog2 x \<le> \<bar>x\<bar>"
  proof -
    from c y0 have "inverse ((2::real) ^ k) \<le> inverse y" by (rule le_imp_inverse_le)
    then show ?thesis unfolding i xy power_int_minus power_int_of_nat .
  qed
  have 2: "\<bar>x\<bar> < 2 powi (ilog2 x + 1)"
  proof -
    have "inverse y < inverse ((2::real) ^ (k - 1))" using a by (simp add: less_imp_inverse_less)
    moreover have "- int k + 1 = - int (k - 1)" using pos by simp
    ultimately show ?thesis unfolding i xy by (simp only: power_int_minus power_int_of_nat)
  qed
  from 1 2 show ?thesis by simp
qed

lemma fl_nearest:
  assumes "x \<noteq> 0"
  shows "\<exists>n. fl p emin x = of_int n * 2 powi (max (ilog2 x) emin - int p + 1) \<and>
             \<bar>fl p emin x - x\<bar> \<le> 2 powi (max (ilog2 x) emin - int p + 1) / 2"
proof -
  define u :: real where "u = 2 powi (max (ilog2 x) emin - int p + 1)"
  have u: "0 < u" by (simp add: u_def)
  have f: "fl p emin x = of_int (rne (x / u)) * u" using assms by (simp add: fl_def u_def Let_def)
  have "\<bar>of_int (rne (x / u)) * u - x\<bar> = \<bar>of_int (rne (x / u)) - x / u\<bar> * u"
  proof -
    have "of_int (rne (x / u)) * u - x = (of_int (rne (x / u)) - x / u) * u" using u by (simp add: field_simps)
    then show ?thesis using u by (simp add: abs_mult)
  qed
  also have "\<dots> \<le> 1 / 2 * u" using rne_nearest[of "x / u"] u by (simp add: mult_right_mono)
  finally have "\<bar>fl p emin x - x\<bar> \<le> u / 2" unfolding f by simp
  with f show ?thesis unfolding u_def by blast
qed

subsection \<open>Properties of the bridging step\<close>

text \<open>The order of the doubles without \<^verbatim>\<open>nan\<close>.\<close>

lemma f_ge_refl: "a \<noteq> NaN \<Longrightarrow> f_ge a a"
  by (simp add: f_ge_def)

lemma f_ge_not_NaN: "f_ge a b \<Longrightarrow> a \<noteq> NaN \<and> b \<noteq> NaN"
  by (cases a; cases b) (auto simp: f_ge_def)

lemma f_ge_trans: "f_ge a b \<Longrightarrow> f_ge b c \<Longrightarrow> f_ge a c"
  by (cases a; cases b; cases c) (auto simp: f_ge_def)

lemma f_ge_total: "a \<noteq> NaN \<Longrightarrow> b \<noteq> NaN \<Longrightarrow> \<not> f_ge a b \<Longrightarrow> f_ge b a"
  by (cases a; cases b) (auto simp: f_ge_def)

lemma f_ge_not_less: "f_ge a b \<Longrightarrow> \<not> f_less a b"
  by (cases a; cases b) (auto simp: f_ge_def)

lemma f_less_NaN [simp]: "\<not> f_less a NaN"
  by (cases a) auto

text \<open>An entry \<open>m\<close> is least in a list: it is \<^verbatim>\<open>nan\<close>, or no entry is \<^verbatim>\<open>nan\<close> and
  every entry is at least \<open>m\<close>.\<close>

definition least_in :: "ieee \<Rightarrow> ieee list \<Rightarrow> bool" where
  "least_in m xs \<longleftrightarrow> m = NaN \<or> (\<forall>x \<in> set xs. f_ge x m)"

lemma np_argmin_from_props:
  "(np_argmin_from i bi bv xs = bi \<and> least_in bv xs) \<or>
   (i \<le> np_argmin_from i bi bv xs \<and> np_argmin_from i bi bv xs < i + length xs \<and>
    least_in (xs ! (np_argmin_from i bi bv xs - i)) (bv # xs))"
proof (induction xs arbitrary: i bi bv)
  case Nil
  then show ?case by (simp add: least_in_def)
next
  case (Cons x xs)
  show ?case
  proof (cases "bv = NaN")
    case True
    then show ?thesis by (simp add: least_in_def)
  next
    case bv: False
    show ?thesis
    proof (cases "f_ge x bv")
      case ge: True
      let ?r = "np_argmin_from (Suc i) bi bv xs"
      have r: "np_argmin_from i bi bv (x # xs) = ?r" using bv ge by simp
      from Cons.IH[of "Suc i" bi bv] consider
        (a) "?r = bi" "least_in bv xs"
        | (b) "Suc i \<le> ?r" "?r < Suc i + length xs" "least_in (xs ! (?r - Suc i)) (bv # xs)"
        by blast
      then show ?thesis
      proof cases
        case a
        from a(2) bv ge have "least_in bv (x # xs)" by (simp add: least_in_def)
        with a(1) show ?thesis unfolding r by blast
      next
        case b
        from b(1) have e: "?r - i = Suc (?r - Suc i)" by simp
        have "least_in (xs ! (?r - Suc i)) (bv # x # xs)"
        proof (cases "xs ! (?r - Suc i) = NaN")
          case True
          then show ?thesis by (simp add: least_in_def)
        next
          case False
          with b(3) have all: "\<forall>y \<in> set (bv # xs). f_ge y (xs ! (?r - Suc i))"
            by (simp add: least_in_def)
          then have "f_ge bv (xs ! (?r - Suc i))" by simp
          with ge have "f_ge x (xs ! (?r - Suc i))" by (rule f_ge_trans)
          with all show ?thesis by (simp add: least_in_def)
        qed
        with b(1,2) show ?thesis unfolding r e by simp
      qed
    next
      case nge: False
      let ?r = "np_argmin_from (Suc i) i x xs"
      have r: "np_argmin_from i bi bv (x # xs) = ?r" using bv nge by simp
      have bx: "x \<noteq> NaN \<Longrightarrow> f_ge bv x" using bv nge by (simp add: f_ge_total)
      from Cons.IH[of "Suc i" i x] consider
        (a) "?r = i" "least_in x xs"
        | (b) "Suc i \<le> ?r" "?r < Suc i + length xs" "least_in (xs ! (?r - Suc i)) (x # xs)"
        by blast
      then show ?thesis
      proof cases
        case a
        have "least_in x (bv # x # xs)"
        proof (cases "x = NaN")
          case True
          then show ?thesis by (simp add: least_in_def)
        next
          case False
          with a(2) bx show ?thesis by (simp add: least_in_def f_ge_refl)
        qed
        with a(1) show ?thesis unfolding r by simp
      next
        case b
        from b(1) have e: "?r - i = Suc (?r - Suc i)" by simp
        have "least_in (xs ! (?r - Suc i)) (bv # x # xs)"
        proof (cases "xs ! (?r - Suc i) = NaN")
          case True
          then show ?thesis by (simp add: least_in_def)
        next
          case False
          with b(3) have all: "\<forall>y \<in> set (x # xs). f_ge y (xs ! (?r - Suc i))"
            by (simp add: least_in_def)
          then have xm: "f_ge x (xs ! (?r - Suc i))" by simp
          then have "x \<noteq> NaN" by (simp add: f_ge_not_NaN)
          from bx[OF this] xm have "f_ge bv (xs ! (?r - Suc i))" by (rule f_ge_trans)
          with all show ?thesis by (simp add: least_in_def)
        qed
        with b(1,2) show ?thesis unfolding r e by simp
      qed
    qed
  qed
qed

lemma np_argmin_min:
  assumes "xs \<noteq> []"
  shows "\<exists>j. np_argmin xs = Inr j \<and> j < length xs \<and> least_in (xs ! j) xs"
proof -
  from assms obtain x ys where xs: "xs = x # ys" by (cases xs) auto
  let ?r = "np_argmin_from 1 0 x ys"
  from np_argmin_from_props[of 1 0 x ys] consider
    (a) "?r = 0" "least_in x ys"
    | (b) "1 \<le> ?r" "?r < 1 + length ys" "least_in (ys ! (?r - 1)) (x # ys)"
    by fastforce
  then have "?r < length xs \<and> least_in (xs ! ?r) xs"
  proof cases
    case a
    have "least_in x (x # ys)"
    proof (cases "x = NaN")
      case True
      then show ?thesis by (simp add: least_in_def)
    next
      case False
      with a(2) show ?thesis by (simp add: least_in_def f_ge_refl)
    qed
    with a(1) show ?thesis by (simp add: xs)
  next
    case b
    from b(1) obtain m where m: "?r = Suc m" by (cases ?r) auto
    with b show ?thesis by (simp add: xs)
  qed
  then show ?thesis by (simp add: np_argmin_def xs)
qed

text \<open>What the query promises of an answer \<open>r\<close> for the point \<open>x\<close>.\<close>

definition is_nearest :: "fvec3 list \<Rightarrow> fvec3 \<Rightarrow> ieee \<times> nat \<Rightarrow> bool" where
  "is_nearest data x r \<longleftrightarrow>
     snd r < length data \<and> fst r = f_norm (f_vsub x (data ! snd r)) \<and>
     least_in (fst r) (map (\<lambda>p. f_norm (f_vsub x p)) data)"

lemma kd_nearest_props:
  assumes "data \<noteq> []"
  shows "\<exists>r. kd_nearest data x = Inr r \<and> is_nearest data x r"
proof -
  let ?ds = "map (\<lambda>p. f_norm (f_vsub x p)) data"
  from assms have "?ds \<noteq> []" by simp
  from np_argmin_min[OF this] obtain j where j: "np_argmin ?ds = Inr j" "j < length ?ds"
    "least_in (?ds ! j) ?ds" by blast
  from j(2) have jl: "j < length data" by simp
  then have dj: "?ds ! j = f_norm (f_vsub x (data ! j))" by simp
  from j(3) jl have "is_nearest data x (?ds ! j, j)"
    unfolding is_nearest_def fst_conv snd_conv using dj by simp
  moreover have "kd_nearest data x = Inr (?ds ! j, j)"
    using j(1) by (simp add: kd_nearest_def)
  ultimately show ?thesis by blast
qed

lemma kd_nearest_all_props:
  assumes "data \<noteq> []"
  shows "\<exists>res. kd_nearest_all data xs = Inr res \<and> length res = length xs \<and>
           (\<forall>k<length xs. is_nearest data (xs ! k) (res ! k))"
proof (induction xs)
  case Nil
  then show ?case by simp
next
  case (Cons q qs)
  from kd_nearest_props[OF assms, of q] obtain r0 where
    r0: "kd_nearest data q = Inr r0" "is_nearest data q r0" by blast
  from Cons.IH obtain res where
    r: "kd_nearest_all data qs = Inr res" "length res = length qs"
    "\<forall>k<length qs. is_nearest data (qs ! k) (res ! k)" by blast
  have "\<forall>k<length (q # qs). is_nearest data ((q # qs) ! k) ((r0 # res) ! k)"
  proof (intro allI impI)
    fix k assume k: "k < length (q # qs)"
    show "is_nearest data ((q # qs) ! k) ((r0 # res) ! k)"
    proof (cases k)
      case 0
      with r0(2) show ?thesis by simp
    next
      case (Suc m)
      with k r(3) show ?thesis by simp
    qed
  qed
  moreover have "kd_nearest_all data (q # qs) = Inr (r0 # res)" using r0(1) r(1) by simp
  moreover have "length (r0 # res) = length (q # qs)" using r(2) by simp
  ultimately show ?case by blast
qed

text \<open>The definitions that evaluate the rounding and the bridging step on given numbers.\<close>

lemmas fp_eval = float64_def float32_def round_to_def fl_def ilog2_def bit_length.simps rne_def Let_def

lemmas stitch_eval = stitch_bridge_def nodes_ix_of_def tree_row_def to_float64_def to_float32_def
  f_scale_def row_astype_float32_def cKDTree_query_def isfinite_def kd_nearest_def f_vsub_def
  f_norm_def np_argmin_def node_dist_check_def tree_dist_def all_finite_def f_ge_def

text \<open>
  Claim C4, as the code has it. For two fragments that both have nodes, with finite
  coordinates in the tree, the pass takes the pair of nodes with the least
  nearest-neighbour distance that the query returned. It skips the bridge between them
  when the length of the bridge exceeds that least distance, or when it exceeds
  \<open>max_edge_length\<close>: either test alone suffices. Otherwise the bridge is added.
\<close>

theorem stitch_bridge_rule:
  assumes "nodes_ix_of sv_id_arr e1 \<noteq> []" and "nodes_ix_of sv_id_arr e2 \<noteq> []"
    and "all_finite nodes scaling (nodes_ix_of sv_id_arr e1)"
    and "all_finite nodes scaling (nodes_ix_of sv_id_arr e2)"
  shows "\<exists>ix1 ix2. ix1 \<in> set (nodes_ix_of sv_id_arr e1) \<and> ix2 \<in> set (nodes_ix_of sv_id_arr e2) \<and>
           (\<forall>a \<in> set (nodes_ix_of sv_id_arr e1). \<forall>b \<in> set (nodes_ix_of sv_id_arr e2).
               \<not> f_less (tree_dist nodes scaling a b) (tree_dist nodes scaling ix1 ix2)) \<and>
           stitch_bridge nodes sv_id_arr scaling max_edge_length e1 e2
             = (if f_less (tree_dist nodes scaling ix1 ix2) (node_dist_check nodes scaling ix1 ix2) \<or>
                   f_less (Num max_edge_length) (node_dist_check nodes scaling ix1 ix2)
                then Inr None else Inr (Some (ix1, ix2)))"
proof -
  from assms(3,4) have fin: "all_finite nodes scaling (nodes_ix_of sv_id_arr e1) \<and>
          all_finite nodes scaling (nodes_ix_of sv_id_arr e2)" by simp
  define A where "A = nodes_ix_of sv_id_arr e1"
  define B where "B = nodes_ix_of sv_id_arr e2"
  define P where "P = tree_row nodes scaling"
  define n1 where "n1 = map P A"
  define n2 where "n2 = map P B"
  from assms have ne1: "n1 \<noteq> []" and neB: "B \<noteq> []" by (simp_all add: n1_def A_def B_def)
  from kd_nearest_all_props[OF ne1, of n2] obtain res where
    r: "kd_nearest_all n1 n2 = Inr res" "length res = length n2"
    "\<forall>k<length n2. is_nearest n1 (n2 ! k) (res ! k)" by blast
  have q: "cKDTree_query n1 n2 = Inr res"
    using fin r(1) by (simp add: cKDTree_query_def all_finite_def list_all_iff n1_def n2_def A_def B_def P_def)
  have lres: "length res = length B" using r(2) by (simp add: n2_def)
  define dists where "dists = map fst res"
  from lres neB have "dists \<noteq> []" by (auto simp: dists_def)
  from np_argmin_min[OF this] obtain j where j: "np_argmin dists = Inr j" "j < length dists"
    "least_in (dists ! j) dists" by blast
  from j(2) lres have jB: "j < length B" by (simp add: dists_def)
  define i1 where "i1 = snd (res ! j)"
  define ix1 where "ix1 = A ! i1"
  define ix2 where "ix2 = B ! j"
  from r(3) jB have nj: "is_nearest n1 (n2 ! j) (res ! j)" by (simp add: n2_def)
  from nj have i1: "i1 < length A" by (simp add: is_nearest_def i1_def n1_def)
  from nj have dj: "fst (res ! j) = f_norm (f_vsub (n2 ! j) (n1 ! i1))"
    by (simp add: is_nearest_def i1_def)
  have in1: "ix1 \<in> set A" using i1 by (simp add: ix1_def)
  have in2: "ix2 \<in> set B" using jB by (simp add: ix2_def)
  have n1i: "n1 ! i1 = P ix1" using i1 by (simp add: n1_def ix1_def)
  have n2j: "n2 ! j = P ix2" using jB by (simp add: n2_def ix2_def)
  have dj': "dists ! j = tree_dist nodes scaling ix1 ix2"
    using jB lres by (simp add: dists_def dj n1i n2j tree_dist_def P_def)
  have le: "\<not> f_less (tree_dist nodes scaling a b) (tree_dist nodes scaling ix1 ix2)"
    if ab: "a \<in> set A" "b \<in> set B" for a b
  proof (cases "dists ! j = NaN")
    case True
    then show ?thesis unfolding dj' by simp
  next
    case False
    with j(3) have all: "\<forall>x \<in> set dists. f_ge x (dists ! j)" by (simp add: least_in_def)
    from ab(2) obtain k where k: "k < length B" "B ! k = b" by (auto simp: in_set_conv_nth)
    from k(1) lres have "dists ! k \<in> set dists" by (simp add: dists_def)
    with all have kj: "f_ge (dists ! k) (dists ! j)" by blast
    then have nk: "dists ! k \<noteq> NaN" by (simp add: f_ge_not_NaN)
    from k(1) lres have dk: "dists ! k = fst (res ! k)" by (simp add: dists_def)
    from r(3) k(1) have "is_nearest n1 (n2 ! k) (res ! k)" by (simp add: n2_def)
    then have "least_in (fst (res ! k)) (map (\<lambda>p. f_norm (f_vsub (n2 ! k) p)) n1)"
      unfolding is_nearest_def by (elim conjE)
    with nk have "\<forall>x \<in> set (map (\<lambda>p. f_norm (f_vsub (n2 ! k) p)) n1). f_ge x (dists ! k)"
      unfolding dk least_in_def by simp
    moreover have "f_norm (f_vsub (n2 ! k) (P a)) \<in> set (map (\<lambda>p. f_norm (f_vsub (n2 ! k) p)) n1)"
      using ab(1) by (simp add: n1_def)
    ultimately have "f_ge (f_norm (f_vsub (n2 ! k) (P a))) (dists ! k)" by blast
    moreover from k have "f_norm (f_vsub (n2 ! k) (P a)) = tree_dist nodes scaling a b"
      by (simp add: tree_dist_def n2_def P_def)
    ultimately have "f_ge (tree_dist nodes scaling a b) (dists ! k)" by simp
    from this kj have "f_ge (tree_dist nodes scaling a b) (dists ! j)" by (rule f_ge_trans)
    then show ?thesis unfolding dj' by (rule f_ge_not_less)
  qed
  have q': "cKDTree_query (map (tree_row nodes scaling) (nodes_ix_of sv_id_arr e1))
              (map (tree_row nodes scaling) (nodes_ix_of sv_id_arr e2)) = Inr res"
    using q by (simp add: n1_def n2_def P_def A_def B_def)
  have sb: "stitch_bridge nodes sv_id_arr scaling max_edge_length e1 e2
      = (if f_less (tree_dist nodes scaling ix1 ix2) (node_dist_check nodes scaling ix1 ix2) \<or>
            f_less (Num max_edge_length) (node_dist_check nodes scaling ix1 ix2)
         then Inr None else Inr (Some (ix1, ix2)))"
  proof -
    from jB lres have jr: "j < length res" by simp
    then have ms: "map snd res ! j = snd (res ! j)" by simp
    show ?thesis
      unfolding stitch_bridge_def Let_def q'
      using assms(1,2) j(1) dj'
      by (simp add: dists_def ix1_def ix2_def i1_def A_def B_def ms)
  qed
  from in1 in2 le sb show ?thesis unfolding A_def B_def by blast
qed

theorem stitch_bridge_rule_witness:
  "nodes_ix_of [1, 1, 2] 1 \<noteq> [] \<and> nodes_ix_of [1, 1, 2] 2 \<noteq> [] \<and>
   all_finite [(0, 0, 0), (100, 0, 0), (300, 0, 0)] (1, 1, 1) (nodes_ix_of [1, 1, 2] 1) \<and>
   all_finite [(0, 0, 0), (100, 0, 0), (300, 0, 0)] (1, 1, 1) (nodes_ix_of [1, 1, 2] 2) \<and>
   tree_dist [(0, 0, 0), (100, 0, 0), (300, 0, 0)] (1, 1, 1) 0 2 = Num 300 \<and>
   tree_dist [(0, 0, 0), (100, 0, 0), (300, 0, 0)] (1, 1, 1) 1 2 = Num 200 \<and>
   node_dist_check [(0, 0, 0), (100, 0, 0), (300, 0, 0)] (1, 1, 1) 1 2 = Num 200 \<and>
   stitch_bridge [(0, 0, 0), (100, 0, 0), (300, 0, 0)] [1, 1, 2] (1, 1, 1) 1500 1 2 = Inr (Some (1, 2))"
  using stitch_bridge_rule [where sv_id_arr = "[1, 1, 2]" and ?e1.0 = 1 and ?e2.0 = 2
      and nodes = "[(0, 0, 0), (100, 0, 0), (300, 0, 0)]" and scaling = "(1, 1, 1)"
      and max_edge_length = 1500]
  by (simp add: stitch_eval fp_eval)

text \<open>
  Two fragments of one node each, 2000 apart, with the bound 1500: the bridge is skipped
  although its length does not exceed the least nearest-neighbour distance, so only one of
  the two conditions holds.
\<close>

theorem stitch_bridge_both_conditions_counterexample:
  "nodes_ix_of [1, 2] 1 \<noteq> [] \<and> nodes_ix_of [1, 2] 2 \<noteq> [] \<and>
   stitch_bridge [(0, 0, 0), (2000, 0, 0)] [1, 2] (1, 1, 1) 1500 1 2 = Inr None \<and>
   \<not> (f_less (tree_dist [(0, 0, 0), (2000, 0, 0)] (1, 1, 1) 0 1)
              (node_dist_check [(0, 0, 0), (2000, 0, 0)] (1, 1, 1) 0 1) \<and>
        f_less (Num 1500) (node_dist_check [(0, 0, 0), (2000, 0, 0)] (1, 1, 1) 0 1))"
  by (simp add: stitch_eval fp_eval)

text \<open>
  The other condition alone suffices as well, and it does hold on some inputs. Two
  fragments of one node each at the voxels 4000001 and 4000000 with the scale factor 10:
  the scaled coordinate 40000010 has no single-precision representation and is given to
  the tree as 40000008, so the tree returns the distance 8, while the length of the bridge
  is computed as 10. The bridge of 10 nm is skipped although the bound is 1500 nm.
\<close>

lemma stitch_bridge_rounding:
  "stitch_bridge [(4000001, 0, 0), (4000000, 0, 0)] [1, 2] (10, 10, 20) 1500 1 2 = Inr None \<and>
   tree_row [(4000001, 0, 0), (4000000, 0, 0)] (10, 10, 20) 0 = (Num 40000008, Num 0, Num 0) \<and>
   tree_dist [(4000001, 0, 0), (4000000, 0, 0)] (10, 10, 20) 0 1 = Num 8 \<and>
   node_dist_check [(4000001, 0, 0), (4000000, 0, 0)] (10, 10, 20) 0 1 = Num 10"
  by (simp add: stitch_eval fp_eval)

text \<open>When a coordinate that is given to the tree is not finite, the pass ends with the
  ValueError of the tree.\<close>

lemma stitch_bridge_not_finite:
  assumes "nodes_ix_of sv_id_arr e1 \<noteq> []" and "nodes_ix_of sv_id_arr e2 \<noteq> []"
    and "\<not> (all_finite nodes scaling (nodes_ix_of sv_id_arr e1) \<and>
             all_finite nodes scaling (nodes_ix_of sv_id_arr e2))"
  shows "stitch_bridge nodes sv_id_arr scaling max_edge_length e1 e2 = Inl ValueError"
proof -
  from assms(3) have "cKDTree_query (map (tree_row nodes scaling) (nodes_ix_of sv_id_arr e1))
               (map (tree_row nodes scaling) (nodes_ix_of sv_id_arr e2)) = Inl ValueError"
    by (auto simp: cKDTree_query_def all_finite_def list_all_iff)
  with assms(1,2) show ?thesis by (simp add: stitch_bridge_def)
qed

text \<open>A scale factor beyond the range of single precision is such a case.\<close>

lemma stitch_bridge_overflow:
  "stitch_bridge [(1, 0, 0), (2, 0, 0)] [1, 2] (2 ^ 130, 1, 1) 1500 1 2 = Inl ValueError"
  by (simp add: stitch_eval fp_eval)

subsection \<open>Annotation smoothing: \<^verbatim>\<open>nodes_in_pathlength\<close> and \<^verbatim>\<open>majority_vote\<close>\<close>












subsection \<open>Properties of the annotation smoothing\<close>





















subsection \<open>Connected components\<close>

text \<open>
  The connected components of networkx are modelled by labels: every node starts with
  its own id as label, and every edge \<open>(a, b)\<close> gives all nodes that carry the label of
  \<open>b\<close> the label of \<open>a\<close>. Two nodes are in one component when their labels agree.
\<close>

definition union_lab :: "nat \<Rightarrow> nat \<Rightarrow> (nat \<Rightarrow> nat) \<Rightarrow> (nat \<Rightarrow> nat)" where
  "union_lab a b lab = (\<lambda>x. if lab x = lab b then lab a else lab x)"

fun labels_of :: "(nat \<times> nat) list \<Rightarrow> (nat \<Rightarrow> nat) \<Rightarrow> (nat \<Rightarrow> nat)" where
  "labels_of [] lab = lab"
| "labels_of ((a, b) # es) lab = labels_of es (union_lab a b lab)"

text \<open>
  \<^verbatim>\<open>nx.connected_components\<close>: the nodes are visited in their order; a node not yet
  seen starts a component, which takes all the nodes connected to it.
\<close>

fun group_by_label :: "(nat \<Rightarrow> nat) \<Rightarrow> nat list \<Rightarrow> nat list list" where
  "group_by_label lab [] = []"
| "group_by_label lab (v # vs) =
     (v # filter (\<lambda>u. lab u = lab v) vs) # group_by_label lab (filter (\<lambda>u. lab u \<noteq> lab v) vs)"

definition connected_components :: "nat list \<Rightarrow> (nat \<times> nat) list \<Rightarrow> nat list list" where
  "connected_components nodes edges = group_by_label (labels_of edges id) nodes"

definition number_connected_components :: "nat list \<Rightarrow> (nat \<times> nat) list \<Rightarrow> nat" where
  "number_connected_components nodes edges = length (connected_components nodes edges)"

subsection \<open>Compartment Partitioner: \<^verbatim>\<open>majority_vote_compartments\<close>\<close>

text \<open>
  The vote of one component with the predictions \<open>preds\<close> of its nodes: the most frequent
  class, the smallest one on a tie; an axon majority (class 1) with a share below 0.66 is
  turned into dendrite (class 0).
\<close>

definition comp_vote :: "int list \<Rightarrow> error + int" where
  "comp_vote preds =
     (case most_frequent preds of
        Inl err \<Rightarrow> Inl err
      | Inr majority \<Rightarrow>
          if majority = 1 \<and> real (count_list preds 1) / real (length preds) < 0.66
          then Inr 0 else Inr majority)"

text \<open>The loop \<^verbatim>\<open>for cc in ccs\<close>, writing into the dictionary \<open>new_axoness_dc\<close>. The
  predictions are the attributes of the graph, that is the original array.\<close>

fun assign_ccs :: "int list \<Rightarrow> nat list list \<Rightarrow> (nat \<Rightarrow> int) \<Rightarrow> error + (nat \<Rightarrow> int)" where
  "assign_ccs arr [] new_axoness_dc = Inr new_axoness_dc"
| "assign_ccs arr (cc # ccs) new_axoness_dc =
     (case comp_vote (map ((!) arr) cc) of
        Inl err \<Rightarrow> Inl err
      | Inr majority \<Rightarrow>
          assign_ccs arr ccs (\<lambda>n. if n \<in> set cc then majority else new_axoness_dc n))"

text \<open>The loop that fills \<open>new_axoness_arr\<close>, an array of zeros at first.\<close>

fun fill_arr :: "(nat \<Rightarrow> int) \<Rightarrow> nat list \<Rightarrow> int list \<Rightarrow> error + int list" where
  "fill_arr dc [] a = Inr a"
| "fill_arr dc (n # ns) a = (if n < length a then fill_arr dc ns (a[n := dc n]) else Inl IndexError)"

text \<open>
  The graph \<open>g\<close> is the weighted graph of the skeleton with the predictions as node
  attribute: the attribute of the node \<open>n\<close> is the entry \<open>n\<close> of the array under
  \<open>ax_pred_key\<close>, and the graph has one node for every skeleton node. The function returns
  an exception or nothing, and the skeleton dictionary as the call leaves it.
\<close>

definition soma_free_nodes :: "wgraph \<Rightarrow> int list \<Rightarrow> nat list" where
  "soma_free_nodes g arr = filter (\<lambda>n. arr ! n \<noteq> 2) (wg_nodes g)"

definition soma_free_edges :: "wgraph \<Rightarrow> int list \<Rightarrow> (nat \<times> nat) list" where
  "soma_free_edges g arr =
     filter (\<lambda>(a, b). arr ! a \<noteq> 2 \<and> arr ! b \<noteq> 2) (map (\<lambda>(a, b, w). (a, b)) (wg_edges g))"

definition majority_vote_compartments ::
  "skeleton \<Rightarrow> wgraph \<Rightarrow> string \<Rightarrow> (error + unit) \<times> skeleton" where
  "majority_vote_compartments sk g ax_pred_key =
     (case sk ax_pred_key of
        None \<Rightarrow> (Inl KeyError, sk)
      | Some arr \<Rightarrow>
          if \<exists>n \<in> set (wg_nodes g). length arr \<le> n then (Inl IndexError, sk)
          else
            (let ccs = connected_components (soma_free_nodes g arr) (soma_free_edges g arr)
             in case assign_ccs arr ccs ((!) arr) of
                  Inl err \<Rightarrow> (Inl err, sk)
                | Inr new_axoness_dc \<Rightarrow>
                    (case fill_arr new_axoness_dc (wg_nodes g) (replicate (number_of_nodes g) 0) of
                       Inl err \<Rightarrow> (Inl err, sk)
                     | Inr new_axoness_arr \<Rightarrow>
                         (Inr (), sk(ax_pred_key @ ''_comp_maj'' \<mapsto> new_axoness_arr)))))"

text \<open>The words of the specification: the runner-up of a vote is the most frequent class
  among the predictions that differ from the majority.\<close>

definition runner_up :: "int list \<Rightarrow> error + int" where
  "runner_up preds =
     (case most_frequent preds of
        Inl err \<Rightarrow> Inl err
      | Inr majority \<Rightarrow> most_frequent (filter (\<lambda>p. p \<noteq> majority) preds))"

subsection \<open>Properties of the Compartment Partitioner\<close>

lemma group_by_label_sets:
  "cc \<in> set (group_by_label lab ns) \<Longrightarrow> set cc \<subseteq> set ns"
proof (induction lab ns rule: group_by_label.induct)
  case (1 lab)
  then show ?case by simp
next
  case (2 lab v vs)
  from "2.prems" consider "cc = v # filter (\<lambda>u. lab u = lab v) vs"
    | "cc \<in> set (group_by_label lab (filter (\<lambda>u. lab u \<noteq> lab v) vs))" by auto
  then show ?case
  proof cases
    case 1
    then show ?thesis by auto
  next
    case 2
    from "2.IH"[OF this] show ?thesis by auto
  qed
qed

lemma group_by_label_nonempty: "cc \<in> set (group_by_label lab ns) \<Longrightarrow> cc \<noteq> []"
  by (induction lab ns rule: group_by_label.induct) auto

lemma comp_vote_total:
  assumes "preds \<noteq> []"
  shows "\<exists>m. comp_vote preds = Inr m"
proof -
  from assms have "np_unique preds \<noteq> []"
    by (metis np_unique_def set_empty set_remdups set_sort)
  then have "np_unique_counts preds \<noteq> []" by (simp add: np_unique_counts_def)
  then obtain i where "np_argmax (np_unique_counts preds) = Inr i"
    by (cases "np_unique_counts preds") (auto simp: np_argmax_def)
  then show ?thesis by (simp add: comp_vote_def most_frequent_def)
qed

lemma assign_ccs_groups:
  "\<exists>dc'. assign_ccs arr (group_by_label lab ns) dc = Inr dc' \<and>
      (\<forall>cc \<in> set (group_by_label lab ns). \<forall>n \<in> set cc. comp_vote (map ((!) arr) cc) = Inr (dc' n)) \<and>
      (\<forall>n. n \<notin> set ns \<longrightarrow> dc' n = dc n)"
proof (induction lab ns arbitrary: dc rule: group_by_label.induct)
  case (1 lab)
  then show ?case by simp
next
  case (2 lab v vs)
  define c where "c = v # filter (\<lambda>u. lab u = lab v) vs"
  define rest where "rest = filter (\<lambda>u. lab u \<noteq> lab v) vs"
  from comp_vote_total[of "map ((!) arr) c"] obtain m where m: "comp_vote (map ((!) arr) c) = Inr m"
    by (auto simp: c_def)
  define dc1 where "dc1 = (\<lambda>n. if n \<in> set c then m else dc n)"
  from "2.IH"[of dc1] obtain dc' where
    d: "assign_ccs arr (group_by_label lab rest) dc1 = Inr dc'"
    "\<forall>cc \<in> set (group_by_label lab rest). \<forall>n \<in> set cc. comp_vote (map ((!) arr) cc) = Inr (dc' n)"
    "\<forall>n. n \<notin> set rest \<longrightarrow> dc' n = dc1 n"
    unfolding rest_def by blast
  have disj: "n \<in> set c \<Longrightarrow> n \<notin> set rest" for n
    by (auto simp: c_def rest_def)
  have g: "group_by_label lab (v # vs) = c # group_by_label lab rest"
    by (simp add: c_def rest_def)
  have 1: "assign_ccs arr (group_by_label lab (v # vs)) dc = Inr dc'"
    unfolding g using m d(1) by (simp add: dc1_def)
  have 2: "\<forall>cc \<in> set (group_by_label lab (v # vs)). \<forall>n \<in> set cc. comp_vote (map ((!) arr) cc) = Inr (dc' n)"
  proof (intro ballI)
    fix cc n assume cc: "cc \<in> set (group_by_label lab (v # vs))" and n: "n \<in> set cc"
    from cc g consider "cc = c" | "cc \<in> set (group_by_label lab rest)" by auto
    then show "comp_vote (map ((!) arr) cc) = Inr (dc' n)"
    proof cases
      case 1
      with n disj d(3) have "dc' n = dc1 n" by blast
      with 1 n m show ?thesis by (simp add: dc1_def)
    next
      case 2
      with d(2) n show ?thesis by blast
    qed
  qed
  have 3: "\<forall>n. n \<notin> set (v # vs) \<longrightarrow> dc' n = dc n"
  proof (intro allI impI)
    fix n assume n: "n \<notin> set (v # vs)"
    then have "n \<notin> set rest" "n \<notin> set c" by (auto simp: rest_def c_def)
    with d(3) show "dc' n = dc n" by (simp add: dc1_def)
  qed
  from 1 2 3 show ?case by blast
qed

lemma fill_arr_result:
  assumes "\<forall>i \<in> set ns. i < length a"
  shows "\<exists>a'. fill_arr dc ns a = Inr a' \<and> length a' = length a \<and>
          (\<forall>j<length a. a' ! j = (if j \<in> set ns then dc j else a ! j))"
  using assms
proof (induction ns arbitrary: a)
  case Nil
  then show ?case by simp
next
  case (Cons i ns)
  from Cons.prems have i: "i < length a" and r: "\<forall>k \<in> set ns. k < length (a[i := dc i])" by auto
  from Cons.IH[OF r] obtain a' where d: "fill_arr dc ns (a[i := dc i]) = Inr a'"
    "length a' = length (a[i := dc i])"
    "\<forall>j<length (a[i := dc i]). a' ! j = (if j \<in> set ns then dc j else (a[i := dc i]) ! j)"
    by blast
  have "\<forall>j<length a. a' ! j = (if j \<in> set (i # ns) then dc j else a ! j)"
  proof (intro allI impI)
    fix j assume "j < length a"
    with d(3) show "a' ! j = (if j \<in> set (i # ns) then dc j else a ! j)"
      by (cases "j = i") auto
  qed
  with d(1,2) i show ?case by simp
qed

text \<open>
  Claim C5, as the code has it. On a skeleton whose graph has the nodes
  \<open>0, \<dots>, N - 1\<close> and whose prediction array has one entry for each node, the
  Compartment Partitioner returns and stores a new array under the key
  \<open>ax_pred_key + "_comp_maj"\<close>. For every connected component that is left when the
  soma nodes (class 2) are removed, every node of the component gets the vote of the
  component: its majority class, except that an axon majority (class 1) with a share below
  0.66 gives dendrite (class 0), whatever the runner-up is. A soma node keeps class 2.
\<close>

theorem compartments_majority:
  assumes "sk ax_pred_key = Some arr" and "wg_nodes g = [0..<length arr]"
  shows "\<exists>new_arr.
           majority_vote_compartments sk g ax_pred_key
             = (Inr (), sk(ax_pred_key @ ''_comp_maj'' \<mapsto> new_arr)) \<and>
           length new_arr = length arr \<and>
           (\<forall>cc \<in> set (connected_components (soma_free_nodes g arr) (soma_free_edges g arr)).
              \<forall>n \<in> set cc. comp_vote (map ((!) arr) cc) = Inr (new_arr ! n)) \<and>
           (\<forall>n<length arr. arr ! n = 2 \<longrightarrow> new_arr ! n = 2)"
proof -
  define ccs where "ccs = connected_components (soma_free_nodes g arr) (soma_free_edges g arr)"
  from assign_ccs_groups[of arr "labels_of (soma_free_edges g arr) id" "soma_free_nodes g arr" "(!) arr"]
  obtain dc' where
    d: "assign_ccs arr ccs ((!) arr) = Inr dc'"
    "\<forall>cc \<in> set ccs. \<forall>n \<in> set cc. comp_vote (map ((!) arr) cc) = Inr (dc' n)"
    "\<forall>n. n \<notin> set (soma_free_nodes g arr) \<longrightarrow> dc' n = arr ! n"
    unfolding ccs_def connected_components_def by blast
  have N: "number_of_nodes g = length arr" by (simp add: number_of_nodes_def assms(2))
  have "\<forall>i \<in> set (wg_nodes g). i < length (replicate (number_of_nodes g) (0::int))"
    by (simp add: N assms(2))
  from fill_arr_result[OF this, of dc'] obtain a' where
    a: "fill_arr dc' (wg_nodes g) (replicate (number_of_nodes g) 0) = Inr a'"
    "length a' = length arr"
    "\<forall>j<length arr. a' ! j = dc' j"
    by (auto simp: N assms(2))
  have noerr: "\<not> (\<exists>n \<in> set (wg_nodes g). length arr \<le> n)" by (simp add: assms(2))
  have 1: "majority_vote_compartments sk g ax_pred_key
             = (Inr (), sk(ax_pred_key @ ''_comp_maj'' \<mapsto> a'))"
    unfolding majority_vote_compartments_def Let_def
    using assms(1) noerr d(1) a(1) by (simp add: ccs_def)
  have 2: "\<forall>cc \<in> set ccs. \<forall>n \<in> set cc. comp_vote (map ((!) arr) cc) = Inr (a' ! n)"
  proof (intro ballI)
    fix cc n assume cc: "cc \<in> set ccs" and n: "n \<in> set cc"
    from cc have "set cc \<subseteq> set (soma_free_nodes g arr)"
      unfolding ccs_def connected_components_def by (rule group_by_label_sets)
    with n have "n < length arr" by (auto simp: soma_free_nodes_def assms(2))
    with a(3) d(2) cc n show "comp_vote (map ((!) arr) cc) = Inr (a' ! n)" by simp
  qed
  have 3: "\<forall>n<length arr. arr ! n = 2 \<longrightarrow> a' ! n = 2"
  proof (intro allI impI)
    fix n assume n: "n < length arr" "arr ! n = 2"
    then have "n \<notin> set (soma_free_nodes g arr)" by (simp add: soma_free_nodes_def)
    with d(3) a(3) n show "a' ! n = 2" by simp
  qed
  from 1 a(2) 2 3 show ?thesis unfolding ccs_def by blast
qed

theorem compartments_majority_witness:
  "majority_vote_compartments [''axoness'' \<mapsto> [1, 1, 0, 2, 0]]
     \<lparr>wg_nodes = [0, 1, 2, 3, 4], wg_edges = [(0, 1, 1), (1, 2, 1), (2, 3, 1), (3, 4, 1)]\<rparr> ''axoness''
   = (Inr (), [''axoness'' \<mapsto> [1, 1, 0, 2, 0], ''axoness_comp_maj'' \<mapsto> [1, 1, 1, 2, 0]]) \<and>
   connected_components
     (soma_free_nodes \<lparr>wg_nodes = [0, 1, 2, 3, 4], wg_edges = [(0, 1, 1), (1, 2, 1), (2, 3, 1), (3, 4, 1)]\<rparr> [1, 1, 0, 2, 0])
     (soma_free_edges \<lparr>wg_nodes = [0, 1, 2, 3, 4], wg_edges = [(0, 1, 1), (1, 2, 1), (2, 3, 1), (3, 4, 1)]\<rparr> [1, 1, 0, 2, 0])
   = [[0, 1, 2], [4]]"
  using compartments_majority [where sk = "[''axoness'' \<mapsto> [1, 1, 0, 2, 0]]" and ax_pred_key = "''axoness''"
      and arr = "[1, 1, 0, 2, 0]"
      and g = "\<lparr>wg_nodes = [0, 1, 2, 3, 4], wg_edges = [(0, 1, 1), (1, 2, 1), (2, 3, 1), (3, 4, 1)]\<rparr>"]
  by (simp add: majority_vote_compartments_def connected_components_def union_lab_def comp_vote_def
     most_frequent_def np_unique_def np_unique_counts_def np_argmax_def number_of_nodes_def
     soma_free_nodes_def soma_free_edges_def)

text \<open>
  A chain of five nodes with the predictions 1, 1, 1, 3, 3 and no soma: one component,
  whose majority is class 1 with the share 0.6 and whose runner-up is class 3. Every
  node is assigned class 0, not class 3.
\<close>

theorem compartments_runner_up_counterexample:
  "connected_components
     (soma_free_nodes \<lparr>wg_nodes = [0, 1, 2, 3, 4], wg_edges = [(0, 1, 1), (1, 2, 1), (2, 3, 1), (3, 4, 1)]\<rparr> [1, 1, 1, 3, 3])
     (soma_free_edges \<lparr>wg_nodes = [0, 1, 2, 3, 4], wg_edges = [(0, 1, 1), (1, 2, 1), (2, 3, 1), (3, 4, 1)]\<rparr> [1, 1, 1, 3, 3])
     = [[0, 1, 2, 3, 4]] \<and>
   most_frequent [1, 1, 1, 3, 3] = Inr 1 \<and>
   runner_up [1, 1, 1, 3, 3] = Inr 3 \<and>
   majority_vote_compartments [''axoness'' \<mapsto> [1, 1, 1, 3, 3]]
     \<lparr>wg_nodes = [0, 1, 2, 3, 4], wg_edges = [(0, 1, 1), (1, 2, 1), (2, 3, 1), (3, 4, 1)]\<rparr> ''axoness''
   = (Inr (), [''axoness'' \<mapsto> [1, 1, 1, 3, 3], ''axoness_comp_maj'' \<mapsto> [0, 0, 0, 0, 0]])"
  by (simp add: majority_vote_compartments_def connected_components_def union_lab_def comp_vote_def
     runner_up_def most_frequent_def np_unique_def np_unique_counts_def np_argmax_def number_of_nodes_def
     soma_free_nodes_def soma_free_edges_def)

subsection \<open>Soundness of the labels\<close>

text \<open>The labels are sound: two nodes carry one label exactly when a chain of edges,
  in either direction, joins them.\<close>

definition same_label :: "(nat \<Rightarrow> nat) \<Rightarrow> (nat \<times> nat) set" where
  "same_label lab = {(x, y). lab x = lab y}"

lemma same_label_rtrancl: "(same_label lab)\<^sup>* = same_label lab"
proof
  show "(same_label lab)\<^sup>* \<subseteq> same_label lab"
  proof
    fix p assume "p \<in> (same_label lab)\<^sup>*"
    then obtain x y where p: "p = (x, y)" "(x, y) \<in> (same_label lab)\<^sup>*" by (cases p) auto
    from p(2) have "(x, y) \<in> same_label lab"
      by (induction rule: rtrancl_induct) (auto simp: same_label_def)
    with p(1) show "p \<in> same_label lab" by simp
  qed
  show "same_label lab \<subseteq> (same_label lab)\<^sup>*" by auto
qed

lemma rtrancl_absorb: "(R\<^sup>* \<union> S)\<^sup>* = (R \<union> S)\<^sup>*"
proof
  have "R\<^sup>* \<union> S \<subseteq> (R \<union> S)\<^sup>*"
    by (meson Un_least Un_upper1 Un_upper2 r_into_rtrancl rtrancl_mono subsetI subset_trans)
  then show "(R\<^sup>* \<union> S)\<^sup>* \<subseteq> (R \<union> S)\<^sup>*"
    by (metis rtrancl_subset_rtrancl)
  show "(R \<union> S)\<^sup>* \<subseteq> (R\<^sup>* \<union> S)\<^sup>*"
    by (rule rtrancl_mono) auto
qed

lemma same_label_union:
  "same_label (union_lab a b lab) = (same_label lab \<union> {(a, b), (b, a)})\<^sup>*"
proof
  show "same_label (union_lab a b lab) \<subseteq> (same_label lab \<union> {(a, b), (b, a)})\<^sup>*"
  proof
    fix p assume "p \<in> same_label (union_lab a b lab)"
    then obtain x y where p: "p = (x, y)" and e: "union_lab a b lab x = union_lab a b lab y"
      by (cases p) (auto simp: same_label_def)
    let ?R = "same_label lab \<union> {(a, b), (b, a)}"
    have k: "lab u = lab v \<Longrightarrow> (u, v) \<in> ?R\<^sup>*" for u v
      by (auto simp: same_label_def)
    have ba: "(b, a) \<in> ?R\<^sup>*" and ab: "(a, b) \<in> ?R\<^sup>*" by auto
    have "(x, y) \<in> ?R\<^sup>*"
    proof (cases "lab x = lab b")
      case xb: True
      show ?thesis
      proof (cases "lab y = lab b")
        case True
        with xb show ?thesis by (intro k) simp
      next
        case False
        with xb e have "lab a = lab y" by (simp add: union_lab_def)
        from k[OF xb] ba k[OF this] show ?thesis by (meson rtrancl_trans)
      qed
    next
      case xb: False
      show ?thesis
      proof (cases "lab y = lab b")
        case True
        with xb e have "lab x = lab a" by (simp add: union_lab_def)
        from k[OF this] ab k[OF True[symmetric]] show ?thesis by (meson rtrancl_trans)
      next
        case False
        with xb e show ?thesis by (intro k) (simp add: union_lab_def)
      qed
    qed
    with p show "p \<in> ?R\<^sup>*" by simp
  qed
next
  have "same_label lab \<union> {(a, b), (b, a)} \<subseteq> same_label (union_lab a b lab)"
    by (auto simp: same_label_def union_lab_def)
  then have "(same_label lab \<union> {(a, b), (b, a)})\<^sup>* \<subseteq> (same_label (union_lab a b lab))\<^sup>*"
    by (rule rtrancl_mono)
  then show "(same_label lab \<union> {(a, b), (b, a)})\<^sup>* \<subseteq> same_label (union_lab a b lab)"
    by (simp add: same_label_rtrancl)
qed

lemma same_label_labels_of:
  "same_label (labels_of es lab) = (same_label lab \<union> set es \<union> (set es)\<inverse>)\<^sup>*"
proof (induction es arbitrary: lab)
  case Nil
  then show ?case by (simp add: same_label_rtrancl)
next
  case (Cons e es)
  obtain a b where e: "e = (a, b)" by (cases e)
  have "same_label (labels_of (e # es) lab) = same_label (labels_of es (union_lab a b lab))"
    by (simp add: e)
  also have "\<dots> = ((same_label lab \<union> {(a, b), (b, a)})\<^sup>* \<union> (set es \<union> (set es)\<inverse>))\<^sup>*"
    by (simp add: Cons.IH same_label_union Un_assoc)
  also have "\<dots> = ((same_label lab \<union> {(a, b), (b, a)}) \<union> (set es \<union> (set es)\<inverse>))\<^sup>*"
    by (rule rtrancl_absorb)
  also have "(same_label lab \<union> {(a, b), (b, a)}) \<union> (set es \<union> (set es)\<inverse>)
      = same_label lab \<union> set (e # es) \<union> (set (e # es))\<inverse>"
    by (auto simp: e)
  finally show ?case .
qed

lemma labels_connected:
  "labels_of es id x = labels_of es id y \<longleftrightarrow> (x, y) \<in> (set es \<union> (set es)\<inverse>)\<^sup>*"
proof -
  have "same_label id = Id" by (auto simp: same_label_def)
  then have "same_label (labels_of es id) = (Id \<union> (set es \<union> (set es)\<inverse>))\<^sup>*"
    by (simp add: same_label_labels_of Un_assoc)
  also have "\<dots> = (set es \<union> (set es)\<inverse>)\<^sup>*"
    by (metis rtrancl_reflcl reflcl_set_eq sup_commute)
  finally show ?thesis by (auto simp: same_label_def)
qed

subsection \<open>Skeleton graphs and their array form\<close>

text \<open>
  A networkx graph of a skeleton: the nodes in insertion order, each with its attribute
  \<open>position\<close>, and the undirected edges. The array form is the dictionary
  \<^verbatim>\<open>sso.skeleton\<close> with its keys \<open>nodes\<close>, \<open>diameters\<close> and \<open>edges\<close>.
\<close>

record nxgraph =
  nx_nodes :: "(nat \<times> position) list"
  nx_edges :: "(nat \<times> nat) list"

record skel_arrays =
  sk_nodes :: "position list"
  sk_diameters :: "real list"
  sk_edges :: "(nat \<times> nat) list"

definition node_ids :: "nxgraph \<Rightarrow> nat list" where
  "node_ids g = map fst (nx_nodes g)"

text \<open>
  The relabelling of the edges (``Important bit, please don't remove''): the endpoints of
  all edges are flattened, sorted and made unique, the dictionary \<open>temp_edges_dict\<close> maps
  every such id to its rank, and every endpoint is replaced by its rank.
\<close>

definition flat_edges :: "(nat \<times> nat) list \<Rightarrow> nat list" where
  "flat_edges es = concat (map (\<lambda>(a, b). [a, b]) es)"

definition temp_edges_sorted :: "(nat \<times> nat) list \<Rightarrow> nat list" where
  "temp_edges_sorted es = sort (remdups (flat_edges es))"

definition temp_edges_dict :: "(nat \<times> nat) list \<Rightarrow> (nat \<rightharpoonup> nat)" where
  "temp_edges_dict es = map_of (zip (temp_edges_sorted es) [0..<length (temp_edges_sorted es)])"

fun relabel_edges :: "(nat \<rightharpoonup> nat) \<Rightarrow> (nat \<times> nat) list \<Rightarrow> error + (nat \<times> nat) list" where
  "relabel_edges d [] = Inr []"
| "relabel_edges d ((a, b) # es) =
     (case (d a, d b) of
        (Some i, Some j) \<Rightarrow>
          (case relabel_edges d es of Inl err \<Rightarrow> Inl err | Inr rs \<Rightarrow> Inr ((i, j) # rs))
      | _ \<Rightarrow> Inl KeyError)"

text \<open>\<^verbatim>\<open>from_netkx_to_arr\<close>: the three arrays, with no check of the graph.\<close>

definition from_netkx_to_arr :: "nxgraph \<Rightarrow> error + skel_arrays" where
  "from_netkx_to_arr skel_nx =
     (case relabel_edges (temp_edges_dict (nx_edges skel_nx)) (nx_edges skel_nx) of
        Inl err \<Rightarrow> Inl err
      | Inr temp_edges \<Rightarrow>
          Inr \<lparr>sk_nodes = map snd (nx_nodes skel_nx),
               sk_diameters = replicate (length (nx_nodes skel_nx)) 0,
               sk_edges = temp_edges\<rparr>)"

text \<open>\<^verbatim>\<open>from_netkx_to_sso\<close>: the same arrays, after the assertion that the graph has
  exactly one connected component.\<close>

definition from_netkx_to_sso :: "nxgraph \<Rightarrow> error + skel_arrays" where
  "from_netkx_to_sso skel_nx =
     (if number_connected_components (node_ids skel_nx) (nx_edges skel_nx) \<noteq> 1 then Inl AssertionError
      else from_netkx_to_arr skel_nx)"

subsection \<open>Canonicalizer: edge weights and minimum spanning tree\<close>

text \<open>
  The weight of an edge, \<^verbatim>\<open>np.linalg.norm((pos[e0] - pos[e1]) * scaling)\<close>. The
  positions are unsigned 32-bit rows, so the difference wraps around.
\<close>

definition wsub :: "position \<Rightarrow> position \<Rightarrow> position" where
  "wsub p q = (case p of (px, py, pz) \<Rightarrow> case q of (qx, qy, qz) \<Rightarrow> (px - qx, py - qy, pz - qz))"

definition edge_weight :: "vec3 \<Rightarrow> position \<Rightarrow> position \<Rightarrow> real" where
  "edge_weight scaling p q = norm3 (vmul (to_float (wsub p q)) scaling)"

fun weighted_edges :: "(nat \<rightharpoonup> position) \<Rightarrow> vec3 \<Rightarrow> (nat \<times> nat) list \<Rightarrow> error + (nat \<times> nat \<times> real) list" where
  "weighted_edges pos scaling [] = Inr []"
| "weighted_edges pos scaling ((a, b) # es) =
     (case (pos a, pos b) of
        (Some p, Some q) \<Rightarrow>
          (case weighted_edges pos scaling es of
             Inl err \<Rightarrow> Inl err
           | Inr ws \<Rightarrow> Inr ((a, b, edge_weight scaling p q) # ws))
      | _ \<Rightarrow> Inl KeyError)"

text \<open>
  \<^verbatim>\<open>nx.minimum_spanning_tree\<close> (Kruskal): the edges in ascending order of weight, the
  order of equal weights kept; an edge is taken when its endpoints are in different
  subtrees, which are then united. The subtrees are kept as labels.
\<close>

fun kruskal :: "(nat \<times> nat \<times> real) list \<Rightarrow> (nat \<Rightarrow> nat) \<Rightarrow> (nat \<times> nat) list" where
  "kruskal [] lab = []"
| "kruskal ((a, b, w) # es) lab =
     (if lab a \<noteq> lab b then (a, b) # kruskal es (union_lab a b lab) else kruskal es lab)"

definition minimum_spanning_tree :: "(nat \<times> nat \<times> real) list \<Rightarrow> (nat \<times> nat) list" where
  "minimum_spanning_tree wes = kruskal (sort_key (\<lambda>(a, b, w). w) wes) id"

text \<open>
  Canonicalization, the end of \<^verbatim>\<open>create_sso_skeleton_fast\<close> and of
  \<^verbatim>\<open>prune_stub_branches\<close>: the weights are set, the minimum spanning tree is taken, and
  the tree is turned into arrays.
\<close>

definition canonical_tree :: "vec3 \<Rightarrow> nxgraph \<Rightarrow> error + nxgraph" where
  "canonical_tree scaling skel_nx =
     (case weighted_edges (map_of (nx_nodes skel_nx)) scaling (nx_edges skel_nx) of
        Inl err \<Rightarrow> Inl err
      | Inr wes \<Rightarrow> Inr (skel_nx\<lparr>nx_edges := minimum_spanning_tree wes\<rparr>))"

definition canonicalize :: "vec3 \<Rightarrow> nxgraph \<Rightarrow> error + skel_arrays" where
  "canonicalize scaling skel_nx =
     (case canonical_tree scaling skel_nx of
        Inl err \<Rightarrow> Inl err
      | Inr t \<Rightarrow> from_netkx_to_sso t)"

subsection \<open>Properties of the Canonicalizer\<close>

lemma length_group_by_label: "length (group_by_label lab ns) = card (lab ` set ns)"
proof (induction lab ns rule: group_by_label.induct)
  case (1 lab)
  then show ?case by simp
next
  case (2 lab v vs)
  have "lab ` set (v # vs) = insert (lab v) (lab ` set (filter (\<lambda>u. lab u \<noteq> lab v) vs))"
    by auto
  moreover have "lab v \<notin> lab ` set (filter (\<lambda>u. lab u \<noteq> lab v) vs)" by auto
  ultimately have "card (lab ` set (v # vs)) = Suc (card (lab ` set (filter (\<lambda>u. lab u \<noteq> lab v) vs)))"
    by simp
  with "2.IH" show ?case by simp
qed

lemma group_by_label_cong:
  assumes "\<And>x y. (f x = f y) = (g x = g y)"
  shows "group_by_label f ns = group_by_label g ns"
proof (induction "length ns" arbitrary: ns rule: less_induct)
  case less
  show ?case
  proof (cases ns)
    case Nil
    then show ?thesis by simp
  next
    case (Cons v vs)
    have e1: "filter (\<lambda>u. f u = f v) vs = filter (\<lambda>u. g u = g v) vs"
      by (rule filter_cong) (simp_all add: assms)
    have e2: "filter (\<lambda>u. f u \<noteq> f v) vs = filter (\<lambda>u. g u \<noteq> g v) vs"
      by (rule filter_cong) (simp_all add: assms)
    have "length (filter (\<lambda>u. f u \<noteq> f v) vs) < length ns"
      unfolding Cons by (simp add: le_imp_less_Suc)
    from less[OF this] have "group_by_label f (filter (\<lambda>u. f u \<noteq> f v) vs)
      = group_by_label g (filter (\<lambda>u. f u \<noteq> f v) vs)" .
    then show ?thesis unfolding Cons by (simp add: e1 e2)
  qed
qed

lemma connected_components_set:
  assumes "set es = set es'"
  shows "connected_components ns es = connected_components ns es'"
  unfolding connected_components_def
proof (rule group_by_label_cong)
  fix x y
  show "(labels_of es id x = labels_of es id y) = (labels_of es' id x = labels_of es' id y)"
    by (simp add: labels_connected assms)
qed

lemma union_lab_same: "lab a = lab b \<Longrightarrow> union_lab a b lab = lab"
  by (auto simp: union_lab_def fun_eq_iff)

lemma kruskal_labels:
  "labels_of (kruskal wes lab) lab = labels_of (map (\<lambda>(a, b, w). (a, b)) wes) lab"
proof (induction wes lab rule: kruskal.induct)
  case (1 lab)
  then show ?case by simp
next
  case (2 a b w es lab)
  show ?case
  proof (cases "lab a = lab b")
    case True
    with "2.IH"(2) show ?thesis by (simp add: union_lab_same)
  next
    case False
    with "2.IH"(1) show ?thesis by simp
  qed
qed

lemma union_lab_image:
  assumes "a \<in> V" and "b \<in> V" and "lab a \<noteq> lab b"
  shows "union_lab a b lab ` V = lab ` V - {lab b}"
  using assms by (auto simp: union_lab_def image_iff)

lemma kruskal_count:
  assumes "finite V" and "\<forall>(a, b, w) \<in> set wes. a \<in> V \<and> b \<in> V"
  shows "card (labels_of (kruskal wes lab) lab ` V) + length (kruskal wes lab) = card (lab ` V)"
  using assms(2)
proof (induction wes arbitrary: lab)
  case Nil
  then show ?case by simp
next
  case (Cons e es)
  obtain a b w where e: "e = (a, b, w)" by (cases e)
  from Cons.prems have ab: "a \<in> V" "b \<in> V" and rest: "\<forall>(a, b, w) \<in> set es. a \<in> V \<and> b \<in> V"
    unfolding e by simp_all
  show ?case
  proof (cases "lab a = lab b")
    case True
    then have "kruskal (e # es) lab = kruskal es lab" unfolding e by simp
    with Cons.IH[OF rest, of lab] show ?thesis by simp
  next
    case False
    define l1 where "l1 = union_lab a b lab"
    have k: "kruskal (e # es) lab = (a, b) # kruskal es l1"
      unfolding e l1_def using False by simp
    have lo: "labels_of (kruskal (e # es) lab) lab = labels_of (kruskal es l1) l1"
      unfolding k l1_def by simp
    from Cons.IH[OF rest, of l1]
    have ih: "card (labels_of (kruskal es l1) l1 ` V) + length (kruskal es l1) = card (l1 ` V)" .
    have im: "l1 ` V = lab ` V - {lab b}"
      unfolding l1_def by (rule union_lab_image[OF ab False])
    have "finite (lab ` V)" using assms(1) by (rule finite_imageI)
    moreover have "lab b \<in> lab ` V" using ab(2) by (rule imageI)
    ultimately have "Suc (card (lab ` V - {lab b})) = card (lab ` V)"
      by (rule card_Suc_Diff1)
    then have c: "Suc (card (l1 ` V)) = card (lab ` V)" unfolding im .
    have "card (labels_of (kruskal (e # es) lab) lab ` V) + length (kruskal (e # es) lab)
        = Suc (card (labels_of (kruskal es l1) l1 ` V) + length (kruskal es l1))"
      unfolding lo unfolding k by simp
    also have "\<dots> = Suc (card (l1 ` V))" unfolding ih ..
    also note c
    finally show ?thesis .
  qed
qed

lemma weighted_edges_edges:
  "weighted_edges pos scaling es = Inr wes \<Longrightarrow> map (\<lambda>(a, b, w). (a, b)) wes = es"
proof (induction es arbitrary: wes)
  case Nil
  then show ?case by simp
next
  case (Cons e es)
  obtain a b where e: "e = (a, b)" by (cases e)
  from Cons.prems obtain p q ws where "pos a = Some p" "pos b = Some q"
    "weighted_edges pos scaling es = Inr ws" "wes = (a, b, edge_weight scaling p q) # ws"
    unfolding e by (auto split: option.splits sum.splits)
  with Cons.IH[of ws] show ?case by (simp add: e)
qed

lemma weighted_edges_total:
  assumes "\<forall>(a, b) \<in> set es. a \<in> dom pos \<and> b \<in> dom pos"
  shows "\<exists>wes. weighted_edges pos scaling es = Inr wes"
  using assms
proof (induction es)
  case Nil
  then show ?case by simp
next
  case (Cons e es)
  obtain a b where e: "e = (a, b)" by (cases e)
  from Cons.prems obtain p q where "pos a = Some p" "pos b = Some q" unfolding e by auto
  moreover from Cons obtain ws where "weighted_edges pos scaling es = Inr ws" by auto
  ultimately show ?case by (simp add: e)
qed

text \<open>A well-formed networkx graph: the node ids are distinct (they are the keys of a
  dictionary), and the endpoints of every edge are nodes.\<close>

definition wf_graph :: "nxgraph \<Rightarrow> bool" where
  "wf_graph g \<longleftrightarrow>
     distinct (node_ids g) \<and> (\<forall>(a, b) \<in> set (nx_edges g). a \<in> set (node_ids g) \<and> b \<in> set (node_ids g))"

lemma mst_set:
  "set (map (\<lambda>(a, b, w). (a, b)) (sort_key (\<lambda>(a, b, w). w) wes)) = set (map (\<lambda>(a, b, w). (a, b)) wes)"
  by simp

lemma mst_components:
  "connected_components ns (minimum_spanning_tree wes)
     = connected_components ns (map (\<lambda>(a, b, w). (a, b)) wes)"
proof -
  let ?s = "sort_key (\<lambda>(a, b, w). w) wes"
  have "labels_of (minimum_spanning_tree wes) id = labels_of (map (\<lambda>(a, b, w). (a, b)) ?s) id"
    unfolding minimum_spanning_tree_def by (rule kruskal_labels)
  then have "connected_components ns (minimum_spanning_tree wes)
      = connected_components ns (map (\<lambda>(a, b, w). (a, b)) ?s)"
    by (simp add: connected_components_def)
  also have "\<dots> = connected_components ns (map (\<lambda>(a, b, w). (a, b)) wes)"
    by (rule connected_components_set) (rule mst_set)
  finally show ?thesis .
qed

lemma mst_edge_count:
  assumes "distinct ns" and "\<forall>(a, b, w) \<in> set wes. a \<in> set ns \<and> b \<in> set ns"
  shows "number_connected_components ns (minimum_spanning_tree wes) + length (minimum_spanning_tree wes)
           = length ns"
proof -
  let ?s = "sort_key (\<lambda>(a, b, w). w) wes"
  from assms(2) have "\<forall>(a, b, w) \<in> set ?s. a \<in> set ns \<and> b \<in> set ns" by simp
  from kruskal_count[OF _ this, of id]
  have "card (labels_of (kruskal ?s id) id ` set ns) + length (kruskal ?s id) = card (id ` set ns)"
    by simp
  moreover have "card (id ` set ns) = length ns" using assms(1) by (simp add: distinct_card)
  ultimately show ?thesis
    by (simp add: number_connected_components_def connected_components_def
        length_group_by_label minimum_spanning_tree_def)
qed

lemma card_image_one_iff:
  "card (f ` set ns) = 1 \<longleftrightarrow> ns \<noteq> [] \<and> (\<forall>x \<in> set ns. \<forall>y \<in> set ns. f x = f y)"
proof
  assume c: "card (f ` set ns) = 1"
  then have "card (f ` set ns) = Suc 0" by simp
  then obtain l where l: "f ` set ns = {l}" unfolding card_1_singleton_iff by (elim exE)
  have "f x = f y" if "x \<in> set ns" "y \<in> set ns" for x y
  proof -
    from that have "f x \<in> {l}" "f y \<in> {l}" unfolding l[symmetric] by simp_all
    then show ?thesis by simp
  qed
  moreover have "ns \<noteq> []"
  proof
    assume "ns = []"
    with c show False by simp
  qed
  ultimately show "ns \<noteq> [] \<and> (\<forall>x \<in> set ns. \<forall>y \<in> set ns. f x = f y)" by blast
next
  assume a: "ns \<noteq> [] \<and> (\<forall>x \<in> set ns. \<forall>y \<in> set ns. f x = f y)"
  then have "hd ns \<in> set ns" by simp
  then obtain v where v: "v \<in> set ns" ..
  have "f ` set ns = {f v}"
  proof
    show "f ` set ns \<subseteq> {f v}" using a v by blast
    show "{f v} \<subseteq> f ` set ns" using v by blast
  qed
  then show "card (f ` set ns) = 1" by simp
qed

lemma ncc_one_iff:
  "number_connected_components ns es = 1 \<longleftrightarrow>
     ns \<noteq> [] \<and> (\<forall>x \<in> set ns. \<forall>y \<in> set ns. (x, y) \<in> (set es \<union> (set es)\<inverse>)\<^sup>*)"
proof -
  have n: "number_connected_components ns es = card (labels_of es id ` set ns)"
    by (simp add: number_connected_components_def connected_components_def length_group_by_label)
  show ?thesis unfolding n card_image_one_iff labels_connected ..
qed

lemma set_temp_edges_sorted: "set (temp_edges_sorted es) = set (flat_edges es)"
  by (simp add: temp_edges_sorted_def)

lemma distinct_temp_edges_sorted: "distinct (temp_edges_sorted es)"
  by (simp add: temp_edges_sorted_def)

lemma flat_edges_mem: "(a, b) \<in> set es \<Longrightarrow> a \<in> set (flat_edges es) \<and> b \<in> set (flat_edges es)"
  by (auto simp: flat_edges_def)

lemma flat_edges_endpoint:
  "x \<in> set (flat_edges es) \<longleftrightarrow> (\<exists>y. (x, y) \<in> set es \<or> (y, x) \<in> set es)"
  by (auto simp: flat_edges_def)

lemma temp_edges_dict_Some:
  assumes "x \<in> set (flat_edges es)"
  shows "\<exists>i. temp_edges_dict es x = Some i \<and> i < length (temp_edges_sorted es) \<and> temp_edges_sorted es ! i = x"
proof -
  let ?s = "temp_edges_sorted es"
  from assms have "x \<in> set ?s" by (simp add: set_temp_edges_sorted)
  then obtain i where i: "i < length ?s" "?s ! i = x" by (auto simp: in_set_conv_nth)
  have "map_of (zip ?s [0..<length ?s]) (?s ! i) = Some ([0..<length ?s] ! i)"
    by (rule map_of_zip_nth) (simp_all add: distinct_temp_edges_sorted i(1))
  with i show ?thesis by (auto simp: temp_edges_dict_def)
qed

text \<open>The rank of an id among the endpoints, that is the value of the dictionary.\<close>

definition rank_of :: "(nat \<times> nat) list \<Rightarrow> nat \<Rightarrow> nat" where
  "rank_of es x = the (temp_edges_dict es x)"

lemma rank_of_props:
  assumes "x \<in> set (flat_edges es)"
  shows "temp_edges_dict es x = Some (rank_of es x)"
    and "rank_of es x < length (temp_edges_sorted es)"
    and "temp_edges_sorted es ! rank_of es x = x"
  using temp_edges_dict_Some[OF assms] by (auto simp: rank_of_def)

lemma relabel_edges_total:
  assumes "set es \<subseteq> set es'"
  shows "relabel_edges (temp_edges_dict es') es = Inr (map (\<lambda>(a, b). (rank_of es' a, rank_of es' b)) es)"
  using assms
proof (induction es)
  case Nil
  then show ?case by simp
next
  case (Cons e es)
  obtain a b where e: "e = (a, b)" by (cases e)
  from Cons.prems have "(a, b) \<in> set es'" by (simp add: e)
  from flat_edges_mem[OF this] have "temp_edges_dict es' a = Some (rank_of es' a)"
    "temp_edges_dict es' b = Some (rank_of es' b)" by (simp_all add: rank_of_props)
  moreover from Cons have "relabel_edges (temp_edges_dict es') es
      = Inr (map (\<lambda>(a, b). (rank_of es' a, rank_of es' b)) es)" by simp
  ultimately show ?case by (simp add: e)
qed

lemma from_netkx_to_arr_eq:
  "from_netkx_to_arr g =
     Inr \<lparr>sk_nodes = map snd (nx_nodes g), sk_diameters = replicate (length (nx_nodes g)) 0,
          sk_edges = map (\<lambda>(a, b). (rank_of (nx_edges g) a, rank_of (nx_edges g) b)) (nx_edges g)\<rparr>"
  by (simp add: from_netkx_to_arr_def relabel_edges_total)

lemma canonical_tree_props:
  assumes "canonical_tree scaling g = Inr t"
  shows "nx_nodes t = nx_nodes g"
    and "\<exists>wes. map (\<lambda>(a, b, w). (a, b)) wes = nx_edges g \<and> nx_edges t = minimum_spanning_tree wes"
proof -
  from assms obtain wes where w: "weighted_edges (map_of (nx_nodes g)) scaling (nx_edges g) = Inr wes"
    and t: "t = g\<lparr>nx_edges := minimum_spanning_tree wes\<rparr>"
    by (auto simp: canonical_tree_def split: sum.splits)
  from t show "nx_nodes t = nx_nodes g" by simp
  from weighted_edges_edges[OF w] t
  show "\<exists>wes. map (\<lambda>(a, b, w). (a, b)) wes = nx_edges g \<and> nx_edges t = minimum_spanning_tree wes"
    by auto
qed

lemma canonical_tree_total:
  assumes "wf_graph g"
  shows "\<exists>t. canonical_tree scaling g = Inr t"
proof -
  have "dom (map_of (nx_nodes g)) = set (node_ids g)"
    by (simp add: dom_map_of_conv_image_fst node_ids_def)
  with assms have "\<forall>(a, b) \<in> set (nx_edges g). a \<in> dom (map_of (nx_nodes g)) \<and> b \<in> dom (map_of (nx_nodes g))"
    by (simp add: wf_graph_def)
  from weighted_edges_total[OF this, of scaling] obtain wes where
    "weighted_edges (map_of (nx_nodes g)) scaling (nx_edges g) = Inr wes" by blast
  then show ?thesis by (simp add: canonical_tree_def)
qed

lemma kruskal_subset: "set (kruskal wes lab) \<subseteq> set (map (\<lambda>(a, b, w). (a, b)) wes)"
  by (induction wes lab rule: kruskal.induct) auto

lemma mst_subset: "set (minimum_spanning_tree wes) \<subseteq> set (map (\<lambda>(a, b, w). (a, b)) wes)"
proof -
  have "set (minimum_spanning_tree wes) \<subseteq> set (map (\<lambda>(a, b, w). (a, b)) (sort_key (\<lambda>(a, b, w). w) wes))"
    unfolding minimum_spanning_tree_def by (rule kruskal_subset)
  then show ?thesis by simp
qed

lemma canonical_tree_wf:
  assumes "wf_graph g" and "canonical_tree scaling g = Inr t"
  shows "wf_graph t"
proof -
  from canonical_tree_props[OF assms(2)] obtain wes where
    n: "nx_nodes t = nx_nodes g" and w: "map (\<lambda>(a, b, w). (a, b)) wes = nx_edges g"
    and e: "nx_edges t = minimum_spanning_tree wes" by blast
  from mst_subset[of wes] have "set (nx_edges t) \<subseteq> set (nx_edges g)" unfolding e w .
  with assms(1) n show ?thesis by (auto simp: wf_graph_def node_ids_def)
qed

lemma canonical_tree_count:
  assumes "wf_graph g" and "canonical_tree scaling g = Inr t"
  shows "number_connected_components (node_ids t) (nx_edges t) + length (nx_edges t) = length (nx_nodes t)"
    and "number_connected_components (node_ids t) (nx_edges t)
           = number_connected_components (node_ids g) (nx_edges g)"
proof -
  from canonical_tree_props[OF assms(2)] obtain wes where
    n: "nx_nodes t = nx_nodes g" and w: "map (\<lambda>(a, b, w). (a, b)) wes = nx_edges g"
    and e: "nx_edges t = minimum_spanning_tree wes" by blast
  have ids: "node_ids t = node_ids g" by (simp add: node_ids_def n)
  from assms(1) have d: "distinct (node_ids g)"
    and en: "\<forall>(a, b) \<in> set (nx_edges g). a \<in> set (node_ids g) \<and> b \<in> set (node_ids g)"
    by (simp_all add: wf_graph_def)
  from en have "\<forall>(a, b, w) \<in> set wes. a \<in> set (node_ids g) \<and> b \<in> set (node_ids g)"
    unfolding w[symmetric] by auto
  from mst_edge_count[OF d this]
  show "number_connected_components (node_ids t) (nx_edges t) + length (nx_edges t) = length (nx_nodes t)"
    unfolding e ids n by (simp add: node_ids_def)
  show "number_connected_components (node_ids t) (nx_edges t)
           = number_connected_components (node_ids g) (nx_edges g)"
    unfolding number_connected_components_def e ids mst_components w ..
qed

lemma relabel_connected:
  assumes "(x, y) \<in> (set es \<union> (set es)\<inverse>)\<^sup>*"
  shows "(r x, r y) \<in> (set (map (\<lambda>(a, b). (r a, r b)) es) \<union> (set (map (\<lambda>(a, b). (r a, r b)) es))\<inverse>)\<^sup>*"
  using assms
proof (induction rule: rtrancl_induct)
  case base
  then show ?case by simp
next
  case (step y z)
  from step.hyps(2) have "(r y, r z) \<in> set (map (\<lambda>(a, b). (r a, r b)) es) \<union> (set (map (\<lambda>(a, b). (r a, r b)) es))\<inverse>"
    by (auto simp: image_iff) force+
  with step.IH show ?case by (rule rtrancl_into_rtrancl)
qed

lemma connected_endpoints:
  assumes "es \<noteq> []" and "\<forall>(a, b) \<in> set es. a \<in> set ns \<and> b \<in> set ns"
    and "\<forall>x \<in> set ns. \<forall>y \<in> set ns. (x, y) \<in> (set es \<union> (set es)\<inverse>)\<^sup>*"
  shows "set (flat_edges es) = set ns"
proof
  show "set (flat_edges es) \<subseteq> set ns"
    using assms(2) by (auto simp: flat_edges_def)
  show "set ns \<subseteq> set (flat_edges es)"
  proof
    fix x assume x: "x \<in> set ns"
    from assms(1) obtain a b where ab: "(a, b) \<in> set es" by (cases es) auto
    with assms(2) have a: "a \<in> set ns" by auto
    from ab have af: "a \<in> set (flat_edges es)" by (simp add: flat_edges_mem)
    from assms(3) x a have "(x, a) \<in> (set es \<union> (set es)\<inverse>)\<^sup>*" by blast
    then show "x \<in> set (flat_edges es)"
    proof (cases rule: converse_rtranclE)
      case base
      with af show ?thesis by simp
    next
      case (step z)
      then have "(x, z) \<in> set es \<or> (z, x) \<in> set es" by auto
      then show ?thesis unfolding flat_edges_endpoint by blast
    qed
  qed
qed

lemma array_form_connected:
  assumes "wf_graph t" and "number_connected_components (node_ids t) (nx_edges t) = 1"
    and "from_netkx_to_arr t = Inr sk"
  shows "number_connected_components [0..<length (sk_nodes sk)] (sk_edges sk) = 1"
proof -
  define ns where "ns = node_ids t"
  define es where "es = nx_edges t"
  define r where "r = rank_of es"
  define es' where "es' = map (\<lambda>(a, b). (r a, r b)) es"
  from assms(3) have sk: "length (sk_nodes sk) = length ns" "sk_edges sk = es'"
    unfolding from_netkx_to_arr_eq by (auto simp: ns_def es_def es'_def r_def node_ids_def)
  from assms(1) have d: "distinct ns"
    and en: "\<forall>(a, b) \<in> set es. a \<in> set ns \<and> b \<in> set ns"
    by (simp_all add: wf_graph_def ns_def es_def)
  from assms(2) have ne: "ns \<noteq> []"
    and conn: "\<forall>x \<in> set ns. \<forall>y \<in> set ns. (x, y) \<in> (set es \<union> (set es)\<inverse>)\<^sup>*"
    unfolding ncc_one_iff ns_def es_def by simp_all
  have "\<forall>i \<in> set [0..<length ns]. \<forall>j \<in> set [0..<length ns]. (i, j) \<in> (set es' \<union> (set es')\<inverse>)\<^sup>*"
  proof (cases "es = []")
    case True
    have "x = y" if "x \<in> set ns" "y \<in> set ns" for x y
      using conn that by (simp add: True)
    then have ij: "i = j" if "i < length ns" "j < length ns" for i j
      using that d by (metis nth_eq_iff_index_eq nth_mem)
    show ?thesis
    proof (intro ballI)
      fix i j assume "i \<in> set [0..<length ns]" "j \<in> set [0..<length ns]"
      then have "i = j" by (intro ij) simp_all
      then show "(i, j) \<in> (set es' \<union> (set es')\<inverse>)\<^sup>*" by simp
    qed
  next
    case False
    from connected_endpoints[OF False en conn] have fl: "set (flat_edges es) = set ns" .
    define srt where "srt = temp_edges_sorted es"
    have ds: "distinct srt" by (simp add: srt_def distinct_temp_edges_sorted)
    have ss: "set srt = set ns" by (simp add: srt_def set_temp_edges_sorted fl)
    have ls: "length srt = length ns"
      using ds d ss by (metis distinct_card)
    show ?thesis
    proof (intro ballI)
      fix i j assume "i \<in> set [0..<length ns]" "j \<in> set [0..<length ns]"
      then have i: "i < length srt" and j: "j < length srt" by (simp_all add: ls)
      have rk: "r (srt ! k) = k" if "k < length srt" for k
      proof -
        from that have m: "srt ! k \<in> set (flat_edges es)" by (simp add: fl ss[symmetric])
        from rank_of_props(2,3)[OF m] have "rank_of es (srt ! k) < length srt"
          "srt ! rank_of es (srt ! k) = srt ! k" by (simp_all add: srt_def)
        with ds that show ?thesis by (simp add: r_def nth_eq_iff_index_eq)
      qed
      from i j have "srt ! i \<in> set ns" "srt ! j \<in> set ns" by (simp_all add: ss[symmetric])
      with conn have "(srt ! i, srt ! j) \<in> (set es \<union> (set es)\<inverse>)\<^sup>*" by blast
      from relabel_connected[OF this, of r]
      show "(i, j) \<in> (set es' \<union> (set es')\<inverse>)\<^sup>*"
        by (simp add: rk[OF i] rk[OF j] es'_def)
    qed
  qed
  moreover from ne have "[0..<length ns] \<noteq> []" by simp
  ultimately have "number_connected_components [0..<length ns] es' = 1"
    unfolding ncc_one_iff by blast
  then show ?thesis by (simp add: sk)
qed

text \<open>
  Claim C1. For every well-formed graph, Canonicalization returns a skeleton exactly when
  the graph has one connected component (otherwise the assertion of
  \<^verbatim>\<open>from_netkx_to_sso\<close> fails), and every skeleton it returns satisfies the tree
  invariant: the number of edges is the number of nodes minus one, and the graph of the
  arrays, on the node indices \<open>0, \<dots>, N - 1\<close>, has exactly one connected component.
  The minimum spanning tree itself, which \<^verbatim>\<open>prune_stub_branches\<close> returns as a graph,
  satisfies the invariant as well when the input graph is connected.
\<close>

theorem canonicalize_tree_invariant:
  assumes "wf_graph g"
  shows "(number_connected_components (node_ids g) (nx_edges g) = 1 \<longrightarrow>
            (\<exists>sk. canonicalize scaling g = Inr sk)) \<and>
         (number_connected_components (node_ids g) (nx_edges g) \<noteq> 1 \<longrightarrow>
            canonicalize scaling g = Inl AssertionError) \<and>
         (\<forall>sk. canonicalize scaling g = Inr sk \<longrightarrow>
            length (sk_edges sk) + 1 = length (sk_nodes sk) \<and>
            number_connected_components [0..<length (sk_nodes sk)] (sk_edges sk) = 1) \<and>
         (\<forall>t. canonical_tree scaling g = Inr t \<and>
               number_connected_components (node_ids g) (nx_edges g) = 1 \<longrightarrow>
            length (nx_edges t) + 1 = length (nx_nodes t) \<and>
            number_connected_components (node_ids t) (nx_edges t) = 1)"
proof -
  from canonical_tree_total[OF assms, of scaling] obtain t where t: "canonical_tree scaling g = Inr t"
    by blast
  note wt = canonical_tree_wf[OF assms t]
  note cnt = canonical_tree_count[OF assms t]
  have c: "canonicalize scaling g = from_netkx_to_sso t" by (simp add: canonicalize_def t)
  have 1: "\<exists>sk. canonicalize scaling g = Inr sk"
    if "number_connected_components (node_ids g) (nx_edges g) = 1"
    using that cnt(2) unfolding c from_netkx_to_sso_def from_netkx_to_arr_eq by simp
  have 2: "canonicalize scaling g = Inl AssertionError"
    if "number_connected_components (node_ids g) (nx_edges g) \<noteq> 1"
    using that cnt(2) unfolding c from_netkx_to_sso_def by simp
  have 3: "length (sk_edges sk) + 1 = length (sk_nodes sk) \<and>
            number_connected_components [0..<length (sk_nodes sk)] (sk_edges sk) = 1"
    if "canonicalize scaling g = Inr sk" for sk
  proof -
    from that have one: "number_connected_components (node_ids t) (nx_edges t) = 1"
      and arr: "from_netkx_to_arr t = Inr sk"
      unfolding c from_netkx_to_sso_def by (auto split: if_splits)
    from arr have "length (sk_edges sk) = length (nx_edges t)" "length (sk_nodes sk) = length (nx_nodes t)"
      unfolding from_netkx_to_arr_eq by auto
    with cnt(1) one have "length (sk_edges sk) + 1 = length (sk_nodes sk)" by simp
    with array_form_connected[OF wt one arr] show ?thesis by simp
  qed
  have 4: "length (nx_edges t') + 1 = length (nx_nodes t') \<and>
            number_connected_components (node_ids t') (nx_edges t') = 1"
    if "canonical_tree scaling g = Inr t' \<and> number_connected_components (node_ids g) (nx_edges g) = 1" for t'
  proof -
    from that t have "t' = t" by simp
    with that cnt show ?thesis by simp
  qed
  from 1 2 3 4 show ?thesis by blast
qed

theorem canonicalize_tree_invariant_witness:
  "wf_graph \<lparr>nx_nodes = [(0, (0, 0, 0)), (1, (10, 0, 0)), (2, (30, 0, 0))], nx_edges = [(0, 2), (0, 1), (1, 2)]\<rparr> \<and>
   number_connected_components [0, 1, 2] [(0, 2), (0, 1), (1, 2)] = 1 \<and>
   canonicalize (1, 1, 1) \<lparr>nx_nodes = [(0, (0, 0, 0)), (1, (10, 0, 0)), (2, (30, 0, 0))],
     nx_edges = [(0, 2), (0, 1), (1, 2)]\<rparr>
   = Inr \<lparr>sk_nodes = [(0, 0, 0), (10, 0, 0), (30, 0, 0)], sk_diameters = [0, 0, 0], sk_edges = [(0, 2), (1, 2)]\<rparr>"
  using canonicalize_tree_invariant [where scaling = "(1, 1, 1)"
      and g = "\<lparr>nx_nodes = [(0, (0, 0, 0)), (1, (10, 0, 0)), (2, (30, 0, 0))], nx_edges = [(0, 2), (0, 1), (1, 2)]\<rparr>"]
  by (simp add: wf_graph_def canonicalize_def canonical_tree_def from_netkx_to_sso_def from_netkx_to_arr_def
    minimum_spanning_tree_def edge_weight_def wsub_def to_float_def vmul_def norm3_axis
    union_lab_def number_connected_components_def connected_components_def node_ids_def
    temp_edges_dict_def temp_edges_sorted_def flat_edges_def)

subsection \<open>The relabelling on a graph with an isolated node\<close>

text \<open>
  Claim C8 fails on the code. A graph with the nodes 0, 1, 2 and the single edge between
  the nodes 1 and 2: the node array keeps all three nodes, so the nodes 1 and 2 are at the
  positions 1 and 2, but the ranks are taken among the endpoints of the edges only, and the
  returned edge is \<open>(0, 1)\<close>, which joins the positions of the nodes 0 and 1.
\<close>

theorem from_netkx_to_arr_isolated_node:
  "from_netkx_to_arr \<lparr>nx_nodes = [(0, (0, 0, 0)), (1, (10, 0, 0)), (2, (30, 0, 0))], nx_edges = [(1, 2)]\<rparr>
   = Inr \<lparr>sk_nodes = [(0, 0, 0), (10, 0, 0), (30, 0, 0)], sk_diameters = [0, 0, 0], sk_edges = [(0, 1)]\<rparr>"
  by (simp add: from_netkx_to_arr_def temp_edges_dict_def temp_edges_sorted_def flat_edges_def)

text \<open>
  The same happens in \<^verbatim>\<open>from_netkx_to_sso\<close> on a connected graph whose nodes were not
  inserted in ascending order: the path 2 -- 0 -- 1 with the nodes inserted as 2, 0, 1
  keeps its edges \<open>(2, 0)\<close> and \<open>(0, 1)\<close>, while the node array holds the node 2 at
  position 0, the node 0 at position 1 and the node 1 at position 2.
\<close>

lemma from_netkx_to_sso_insertion_order:
  "from_netkx_to_sso \<lparr>nx_nodes = [(2, (30, 0, 0)), (0, (0, 0, 0)), (1, (10, 0, 0))], nx_edges = [(2, 0), (0, 1)]\<rparr>
   = Inr \<lparr>sk_nodes = [(30, 0, 0), (0, 0, 0), (10, 0, 0)], sk_diameters = [0, 0, 0], sk_edges = [(2, 0), (0, 1)]\<rparr>"
  by (simp add: from_netkx_to_sso_def from_netkx_to_arr_def temp_edges_dict_def temp_edges_sorted_def
      flat_edges_def number_connected_components_def connected_components_def node_ids_def union_lab_def)

text \<open>
  On a graph whose nodes are iterated in ascending order of their ids and all of whose
  nodes are endpoints of edges, the rank of an endpoint is the position of its node.
\<close>

lemma relabel_positions_sorted:
  assumes "wf_graph g" and "sorted (node_ids g)"
    and "set (flat_edges (nx_edges g)) = set (node_ids g)"
    and "x \<in> set (flat_edges (nx_edges g))"
  shows "rank_of (nx_edges g) x < length (node_ids g) \<and> node_ids g ! rank_of (nx_edges g) x = x"
proof -
  from assms(1) have d: "distinct (node_ids g)" by (simp add: wf_graph_def)
  have "temp_edges_sorted (nx_edges g) = node_ids g"
  proof (rule sorted_distinct_set_unique)
    show "sorted (temp_edges_sorted (nx_edges g))" by (simp add: temp_edges_sorted_def)
    show "distinct (temp_edges_sorted (nx_edges g))" by (rule distinct_temp_edges_sorted)
    show "sorted (node_ids g)" by (rule assms(2))
    show "distinct (node_ids g)" by (rule d)
    show "set (temp_edges_sorted (nx_edges g)) = set (node_ids g)"
      by (simp add: set_temp_edges_sorted assms(3))
  qed
  with rank_of_props(2,3)[OF assms(4)] show ?thesis by simp
qed

subsection \<open>Pruner: \<^verbatim>\<open>prune_stub_branches\<close>\<close>

text \<open>The degree of a node (a self-loop counts twice) and its neighbours in the order of
  the edges.\<close>

definition degree :: "nxgraph \<Rightarrow> nat \<Rightarrow> nat" where
  "degree g v = length (filter (\<lambda>(a, b). a = v) (nx_edges g)) + length (filter (\<lambda>(a, b). b = v) (nx_edges g))"

fun nbrs :: "(nat \<times> nat) list \<Rightarrow> nat \<Rightarrow> nat list" where
  "nbrs [] v = []"
| "nbrs ((a, b) # es) v =
     (if a = v then b # nbrs es v else if b = v then a # nbrs es v else nbrs es v)"

text \<open>
  \<^verbatim>\<open>nx.traversal.dfs_preorder_nodes\<close>: depth-first search with a stack of nodes still to
  visit and the list of the nodes visited so far, the last one first.
\<close>

definition reach_bound :: "(nat \<times> nat) list \<Rightarrow> nat list \<Rightarrow> nat list \<Rightarrow> nat set" where
  "reach_bound es stack vis = (set (flat_edges es) \<union> set stack) - set vis"

function dfs :: "(nat \<times> nat) list \<Rightarrow> nat list \<Rightarrow> nat list \<Rightarrow> nat list" where
  "dfs es [] vis = rev vis"
| "dfs es (v # stack) vis =
     (if v \<in> set vis then dfs es stack vis else dfs es (nbrs es v @ stack) (v # vis))"
  by pat_completeness auto

lemma nbrs_flat: "set (nbrs es v) \<subseteq> set (flat_edges es)"
  by (induction es v rule: nbrs.induct) (auto simp: flat_edges_def)

lemma reach_bound_skip: "reach_bound es stack vis \<subseteq> reach_bound es (v # stack) vis"
  by (auto simp: reach_bound_def)

lemma reach_bound_visit:
  assumes "v \<notin> set vis"
  shows "reach_bound es (nbrs es v @ stack) (v # vis) \<subset> reach_bound es (v # stack) vis"
proof -
  have "v \<in> reach_bound es (v # stack) vis" using assms by (simp add: reach_bound_def)
  moreover have "v \<notin> reach_bound es (nbrs es v @ stack) (v # vis)" by (simp add: reach_bound_def)
  moreover have "reach_bound es (nbrs es v @ stack) (v # vis) \<subseteq> reach_bound es (v # stack) vis"
    using nbrs_flat[of es v] by (auto simp: reach_bound_def)
  ultimately show ?thesis by blast
qed

termination dfs
proof (relation "measures [\<lambda>(es, stack, vis). card (reach_bound es stack vis), \<lambda>(es, stack, vis). length stack]",
    goal_cases)
  case 1
  show ?case by simp
next
  case (2 es v stack vis)
  have "finite (reach_bound es (v # stack) vis)" by (simp add: reach_bound_def)
  from card_mono[OF this reach_bound_skip[of es stack vis v]]
  show ?case by auto
next
  case (3 es v stack vis)
  have "finite (reach_bound es (v # stack) vis)" by (simp add: reach_bound_def)
  from psubset_card_mono[OF this reach_bound_visit[OF 3, of es stack]]
  show ?case by simp
qed

definition dfs_preorder_nodes :: "nxgraph \<Rightarrow> nat \<Rightarrow> nat list" where
  "dfs_preorder_nodes g source = dfs (nx_edges g) [source] []"

text \<open>
  The inner loop over the traversal: the nodes are collected in \<open>prune_nodes\<close> until the
  first node of degree greater than 2, the branch node, is met. The result is the
  collected nodes and the branch node, if the traversal meets one.
\<close>

fun walk_to_branch :: "nxgraph \<Rightarrow> nat list \<Rightarrow> nat list \<Rightarrow> nat list \<times> nat option" where
  "walk_to_branch g [] prune_nodes = (prune_nodes, None)"
| "walk_to_branch g (curr_node # rest) prune_nodes =
     (if degree g curr_node > 2 then (prune_nodes, Some curr_node)
      else walk_to_branch g rest (prune_nodes @ [curr_node]))"

text \<open>
  \<^verbatim>\<open>convert_coord\<close>: the first two coordinates are swapped, one is added to each (the sum
  of an unsigned scalar and a Python integer is a 64-bit integer, so it does not wrap),
  and the result is scaled. \<open>b_len\<close> is the distance of two converted coordinates.
\<close>

definition convert_coord :: "position \<Rightarrow> vec3 \<Rightarrow> vec3" where
  "convert_coord coord_list scal =
     (case coord_list of (x, y, z) \<Rightarrow>
        vmul (real (unat y) + 1, real (unat x) + 1, real (unat z) + 1) scal)"

definition b_len :: "vec3 \<Rightarrow> position \<Rightarrow> position \<Rightarrow> real" where
  "b_len scal pos_end pos_curr = norm3 (vsub (convert_coord pos_end scal) (convert_coord pos_curr scal))"

text \<open>\<^verbatim>\<open>remove_node\<close>: the node and its edges go; NetworkXError for a node that is not in the
  graph.\<close>

definition remove_node :: "nxgraph \<Rightarrow> nat \<Rightarrow> error + nxgraph" where
  "remove_node g v =
     (if v \<notin> set (node_ids g) then Inl NetworkXError
      else Inr \<lparr>nx_nodes = filter (\<lambda>(n, p). n \<noteq> v) (nx_nodes g),
                nx_edges = filter (\<lambda>(a, b). a \<noteq> v \<and> b \<noteq> v) (nx_edges g)\<rparr>)"

fun remove_nodes :: "nxgraph \<Rightarrow> nat list \<Rightarrow> error + nxgraph" where
  "remove_nodes g [] = Inr g"
| "remove_nodes g (v # vs) =
     (case remove_node g v of Inl err \<Rightarrow> Inl err | Inr g' \<Rightarrow> remove_nodes g' vs)"

text \<open>
  The body of the loop over the end nodes: \<open>nx_g\<close> is the copy taken at the start of the
  pass, on which degrees and traversal are computed, and \<open>new_nx_g\<close> is the graph from which
  the stub is removed.
\<close>

definition prune_step :: "vec3 \<Rightarrow> real \<Rightarrow> nxgraph \<Rightarrow> nxgraph \<Rightarrow> nat \<Rightarrow> error + nxgraph" where
  "prune_step scal len_thres nx_g new_nx_g end_node =
     (case walk_to_branch nx_g (dfs_preorder_nodes nx_g end_node) [] of
        (prune_nodes, None) \<Rightarrow> Inr new_nx_g
      | (prune_nodes, Some curr_node) \<Rightarrow>
          (case (map_of (nx_nodes nx_g) end_node, map_of (nx_nodes nx_g) curr_node) of
             (Some loc_end, Some loc_curr) \<Rightarrow>
               if b_len scal loc_end loc_curr < len_thres then remove_nodes new_nx_g prune_nodes
               else Inr new_nx_g
           | _ \<Rightarrow> Inl KeyError))"

fun prune_pass :: "vec3 \<Rightarrow> real \<Rightarrow> nxgraph \<Rightarrow> nat list \<Rightarrow> nxgraph \<Rightarrow> error + nxgraph" where
  "prune_pass scal len_thres nx_g [] new_nx_g = Inr new_nx_g"
| "prune_pass scal len_thres nx_g (end_node # end_nodes) new_nx_g =
     (case prune_step scal len_thres nx_g new_nx_g end_node of
        Inl err \<Rightarrow> Inl err
      | Inr g' \<Rightarrow> prune_pass scal len_thres nx_g end_nodes g')"

text \<open>The tip nodes, that is the nodes of degree 1.\<close>

definition end_nodes_of :: "nxgraph \<Rightarrow> nat list" where
  "end_nodes_of g = filter (\<lambda>k. degree g k = 1) (node_ids g)"

lemma remove_node_length:
  "remove_node g v = Inr g' \<Longrightarrow> length (nx_nodes g') < length (nx_nodes g)"
proof -
  assume a: "remove_node g v = Inr g'"
  then have v: "v \<in> set (node_ids g)" and g': "nx_nodes g' = filter (\<lambda>(n, p). n \<noteq> v) (nx_nodes g)"
    by (auto simp: remove_node_def split: if_splits)
  from v obtain p where "(v, p) \<in> set (nx_nodes g)" by (auto simp: node_ids_def)
  then have "\<exists>x \<in> set (nx_nodes g). \<not> (\<lambda>(n, p). n \<noteq> v) x" by force
  then obtain x where "x \<in> set (nx_nodes g)" "\<not> (\<lambda>(n, p). n \<noteq> v) x" by blast
  then show ?thesis unfolding g' by (rule length_filter_less)
qed

lemma remove_nodes_length:
  "remove_nodes g vs = Inr g' \<Longrightarrow> length (nx_nodes g') \<le> length (nx_nodes g)"
proof (induction vs arbitrary: g)
  case Nil
  then show ?case by simp
next
  case (Cons v vs)
  from Cons.prems obtain g1 where r: "remove_node g v = Inr g1" "remove_nodes g1 vs = Inr g'"
    by (auto split: sum.splits)
  from remove_node_length[OF r(1)] Cons.IH[OF r(2)] show ?case by simp
qed

lemma remove_nodes_length_strict:
  "remove_nodes g vs = Inr g' \<Longrightarrow> vs \<noteq> [] \<Longrightarrow> length (nx_nodes g') < length (nx_nodes g)"
proof (cases vs)
  case Nil
  assume "vs \<noteq> []"
  with Nil show ?thesis by simp
next
  case (Cons v ws)
  assume "remove_nodes g vs = Inr g'"
  with Cons obtain g1 where r: "remove_node g v = Inr g1" "remove_nodes g1 ws = Inr g'"
    by (auto split: sum.splits)
  from remove_node_length[OF r(1)] remove_nodes_length[OF r(2)] show ?thesis by simp
qed

lemma prune_step_length:
  "prune_step scal T nx_g cur e = Inr cur' \<Longrightarrow> length (nx_nodes cur') \<le> length (nx_nodes cur)"
  by (auto simp: prune_step_def split: prod.splits option.splits if_splits dest: remove_nodes_length)

lemma prune_pass_length:
  "prune_pass scal T nx_g es cur = Inr cur' \<Longrightarrow> length (nx_nodes cur') \<le> length (nx_nodes cur)"
proof (induction es arbitrary: cur)
  case Nil
  then show ?case by simp
next
  case (Cons e es)
  from Cons.prems obtain c1 where s: "prune_step scal T nx_g cur e = Inr c1"
    "prune_pass scal T nx_g es c1 = Inr cur'" by (auto split: sum.splits)
  from prune_step_length[OF s(1)] Cons.IH[OF s(2)] show ?case by simp
qed

text \<open>
  The loop \<^verbatim>\<open>while not pruning_complete\<close>: passes are made until one of them removes no
  node.
\<close>

function prune_loop :: "vec3 \<Rightarrow> real \<Rightarrow> nxgraph \<Rightarrow> error + nxgraph" where
  "prune_loop scal len_thres new_nx_g =
     (case prune_pass scal len_thres new_nx_g (end_nodes_of new_nx_g) new_nx_g of
        Inl err \<Rightarrow> Inl err
      | Inr g' \<Rightarrow>
          if length (nx_nodes g') = length (nx_nodes new_nx_g) then Inr g'
          else prune_loop scal len_thres g')"
  by pat_completeness auto

termination prune_loop
proof (relation "measure (\<lambda>(scal, len_thres, g). length (nx_nodes g))", goal_cases)
  case 1
  show ?case by simp
next
  case (2 scal len_thres new_nx_g g')
  from prune_pass_length[OF 2(1)] 2(2) show ?case by simp
qed

declare prune_loop.simps [simp del]

text \<open>The words of the specification: the cumulative physical length of a path, given by
  the positions of its nodes.\<close>

fun path_length :: "vec3 \<Rightarrow> position list \<Rightarrow> real" where
  "path_length scaling (p # q # ps) = norm3 (vsub (scaled p scaling) (scaled q scaling)) + path_length scaling (q # ps)"
| "path_length scaling ps = 0"

subsection \<open>Properties of the Pruner\<close>

lemma dfs_keeps_visited: "\<exists>rest. dfs es stack vis = rev vis @ rest"
  by (induction es stack vis rule: dfs.induct) auto

lemma dfs_preorder_starts: "\<exists>rest. dfs_preorder_nodes g source = source # rest"
proof -
  have "dfs (nx_edges g) [source] [] = dfs (nx_edges g) (nbrs (nx_edges g) source) [source]"
    by simp
  with dfs_keeps_visited[of "nx_edges g" "nbrs (nx_edges g) source" "[source]"]
  show ?thesis by (auto simp: dfs_preorder_nodes_def)
qed

lemma walk_to_branch_prefix:
  "walk_to_branch g order acc = (pre, r) \<Longrightarrow> \<exists>more. pre = acc @ more"
proof (induction order arbitrary: acc)
  case Nil
  then show ?case by simp
next
  case (Cons c cs)
  show ?case
  proof (cases "degree g c > 2")
    case True
    with Cons.prems show ?thesis by simp
  next
    case False
    with Cons.prems have "walk_to_branch g cs (acc @ [c]) = (pre, r)" by simp
    from Cons.IH[OF this] show ?thesis by auto
  qed
qed

text \<open>A tip node is removed with its stub when the traversal from it meets a branch node
  whose converted coordinate is closer than the threshold.\<close>

definition short_stub :: "vec3 \<Rightarrow> real \<Rightarrow> nxgraph \<Rightarrow> nat \<Rightarrow> nat list \<Rightarrow> bool" where
  "short_stub scal len_thres g end_node prune_nodes \<longleftrightarrow>
     (\<exists>curr_node loc_end loc_curr.
        walk_to_branch g (dfs_preorder_nodes g end_node) [] = (prune_nodes, Some curr_node) \<and>
        map_of (nx_nodes g) end_node = Some loc_end \<and>
        map_of (nx_nodes g) curr_node = Some loc_curr \<and>
        b_len scal loc_end loc_curr < len_thres)"

lemma short_stub_nonempty:
  assumes "short_stub scal T g e pre" and "degree g e = 1"
  shows "pre \<noteq> []"
proof -
  from assms(1) obtain b where w: "walk_to_branch g (dfs_preorder_nodes g e) [] = (pre, Some b)"
    by (auto simp: short_stub_def)
  from dfs_preorder_starts[of g e] obtain rest where d: "dfs_preorder_nodes g e = e # rest" by blast
  from w assms(2) have "walk_to_branch g rest [e] = (pre, Some b)" unfolding d by simp
  from walk_to_branch_prefix[OF this] show ?thesis by auto
qed

lemma prune_step_cases:
  assumes "prune_step scal T nx_g cur e = Inr cur'"
  shows "cur' = cur \<or> (\<exists>pre. short_stub scal T nx_g e pre \<and> remove_nodes cur pre = Inr cur')"
proof -
  obtain pre r where w: "walk_to_branch nx_g (dfs_preorder_nodes nx_g e) [] = (pre, r)"
    by (cases "walk_to_branch nx_g (dfs_preorder_nodes nx_g e) []")
  show ?thesis
  proof (cases r)
    case None
    with assms w show ?thesis by (simp add: prune_step_def)
  next
    case (Some b)
    with assms w obtain pe pb where p: "map_of (nx_nodes nx_g) e = Some pe" "map_of (nx_nodes nx_g) b = Some pb"
      by (auto simp: prune_step_def split: option.splits)
    show ?thesis
    proof (cases "b_len scal pe pb < T")
      case True
      with assms w Some p have "remove_nodes cur pre = Inr cur'" by (simp add: prune_step_def)
      moreover from w Some p True have "short_stub scal T nx_g e pre"
        unfolding short_stub_def by blast
      ultimately show ?thesis by blast
    next
      case False
      with assms w Some p show ?thesis by (simp add: prune_step_def)
    qed
  qed
qed

lemma prune_step_short:
  assumes "short_stub scal T nx_g e pre"
  shows "prune_step scal T nx_g cur e = remove_nodes cur pre"
  using assms by (auto simp: short_stub_def prune_step_def)

lemma prune_pass_same_length:
  assumes "prune_pass scal T nx_g es cur = Inr cur'"
    and "length (nx_nodes cur') = length (nx_nodes cur)"
    and "\<forall>e \<in> set es. degree nx_g e = 1"
  shows "cur' = cur \<and> (\<forall>e \<in> set es. \<forall>pre. \<not> short_stub scal T nx_g e pre)"
  using assms
proof (induction es arbitrary: cur)
  case Nil
  then show ?case by simp
next
  case (Cons e es)
  from Cons.prems(1) obtain c1 where s: "prune_step scal T nx_g cur e = Inr c1"
    and p: "prune_pass scal T nx_g es c1 = Inr cur'" by (auto split: sum.splits)
  from prune_step_length[OF s] prune_pass_length[OF p] Cons.prems(2)
  have l1: "length (nx_nodes c1) = length (nx_nodes cur)" and l2: "length (nx_nodes cur') = length (nx_nodes c1)"
    by simp_all
  from Cons.prems(3) have de: "degree nx_g e = 1" and des: "\<forall>e \<in> set es. degree nx_g e = 1" by simp_all
  have no: "\<not> short_stub scal T nx_g e pre" for pre
  proof
    assume ss: "short_stub scal T nx_g e pre"
    from s have "remove_nodes cur pre = Inr c1" unfolding prune_step_short[OF ss] .
    from remove_nodes_length_strict[OF this short_stub_nonempty[OF ss de]] l1 show False by simp
  qed
  from prune_step_cases[OF s] no have c1: "c1 = cur" by blast
  from Cons.IH[OF p l2 des] c1 no show ?case by simp
qed

lemma prune_loop_fixpoint:
  "prune_loop scal T g = Inr g' \<Longrightarrow>
     \<forall>e \<in> set (end_nodes_of g'). \<forall>pre. \<not> short_stub scal T g' e pre"
proof (induction scal T g rule: prune_loop.induct)
  case (1 scal T g)
  from "1.prems" obtain g1 where p: "prune_pass scal T g (end_nodes_of g) g = Inr g1"
    by (auto simp: prune_loop.simps[of scal T g] split: sum.splits)
  show ?case
  proof (cases "length (nx_nodes g1) = length (nx_nodes g)")
    case True
    with "1.prems" p have r: "g' = g1" by (simp add: prune_loop.simps[of scal T g])
    have "\<forall>e \<in> set (end_nodes_of g). degree g e = 1" by (simp add: end_nodes_of_def)
    from prune_pass_same_length[OF p True this] r show ?thesis by simp
  next
    case False
    with "1.prems" p have "prune_loop scal T g1 = Inr g'" by (simp add: prune_loop.simps[of scal T g])
    from "1.IH"[OF p False this] show ?thesis .
  qed
qed

lemma remove_node_ids:
  "remove_node g v = Inr g' \<Longrightarrow> set (node_ids g') = set (node_ids g) - {v}"
  by (auto simp: remove_node_def node_ids_def split: if_splits)

lemma remove_nodes_ids:
  "remove_nodes g vs = Inr g' \<Longrightarrow> set (node_ids g') = set (node_ids g) - set vs"
proof (induction vs arbitrary: g)
  case Nil
  then show ?case by simp
next
  case (Cons v vs)
  from Cons.prems obtain g1 where r: "remove_node g v = Inr g1" "remove_nodes g1 vs = Inr g'"
    by (auto split: sum.splits)
  from remove_node_ids[OF r(1)] Cons.IH[OF r(2)] show ?case by auto
qed

lemma prune_pass_removed:
  assumes "prune_pass scal T nx_g es cur = Inr cur'"
  shows "set (node_ids cur') \<subseteq> set (node_ids cur) \<and>
         (\<forall>v \<in> set (node_ids cur) - set (node_ids cur').
            \<exists>e \<in> set es. \<exists>pre. short_stub scal T nx_g e pre \<and> v \<in> set pre)"
  using assms
proof (induction es arbitrary: cur)
  case Nil
  then show ?case by simp
next
  case (Cons e es)
  from Cons.prems obtain c1 where s: "prune_step scal T nx_g cur e = Inr c1"
    and p: "prune_pass scal T nx_g es c1 = Inr cur'" by (auto split: sum.splits)
  note ih = Cons.IH[OF p]
  from prune_step_cases[OF s] show ?case
  proof
    assume "c1 = cur"
    with ih show ?thesis by auto
  next
    assume "\<exists>pre. short_stub scal T nx_g e pre \<and> remove_nodes cur pre = Inr c1"
    then obtain pre where ss: "short_stub scal T nx_g e pre" and r: "remove_nodes cur pre = Inr c1"
      by blast
    note ids = remove_nodes_ids[OF r]
    have 1: "set (node_ids cur') \<subseteq> set (node_ids cur)" using ih ids by blast
    have 2: "\<exists>e' \<in> set (e # es). \<exists>pre. short_stub scal T nx_g e' pre \<and> v \<in> set pre"
      if v: "v \<in> set (node_ids cur) - set (node_ids cur')" for v
    proof (cases "v \<in> set (node_ids c1)")
      case True
      with v ih show ?thesis by auto
    next
      case False
      with v ids have "v \<in> set pre" by blast
      with ss show ?thesis by auto
    qed
    from 1 2 show ?thesis by blast
  qed
qed


text \<open>
  What the loop guarantees is a rule on straight-line distances. The length that is
  compared with the threshold is \<open>b_len\<close>, the distance between the converted
  coordinates of the tip node and of the branch node; the length of the path between them
  is not computed. When the loop completes, no tip node is left whose traversal meets a
  branch node at a straight-line distance below the threshold. In every pass, a node is
  removed only as part of the stub of a tip node whose branch node is at a straight-line
  distance below the threshold.
\<close>

lemma prune_loop_straight_line_rule:
  "(\<forall>g'. prune_loop scal len_thres g = Inr g' \<longrightarrow>
      (\<forall>end_node \<in> set (end_nodes_of g'). \<forall>prune_nodes curr_node loc_end loc_curr.
          walk_to_branch g' (dfs_preorder_nodes g' end_node) [] = (prune_nodes, Some curr_node) \<and>
          map_of (nx_nodes g') end_node = Some loc_end \<and>
          map_of (nx_nodes g') curr_node = Some loc_curr \<longrightarrow>
          len_thres \<le> b_len scal loc_end loc_curr)) \<and>
   (\<forall>g'. prune_pass scal len_thres g (end_nodes_of g) g = Inr g' \<longrightarrow>
      (\<forall>v \<in> set (node_ids g) - set (node_ids g').
          \<exists>end_node \<in> set (end_nodes_of g). \<exists>prune_nodes.
             short_stub scal len_thres g end_node prune_nodes \<and> v \<in> set prune_nodes))"
proof (intro conjI allI impI)
  fix g' assume l: "prune_loop scal len_thres g = Inr g'"
  note fp = prune_loop_fixpoint[OF l]
  show "\<forall>end_node \<in> set (end_nodes_of g'). \<forall>prune_nodes curr_node loc_end loc_curr.
          walk_to_branch g' (dfs_preorder_nodes g' end_node) [] = (prune_nodes, Some curr_node) \<and>
          map_of (nx_nodes g') end_node = Some loc_end \<and>
          map_of (nx_nodes g') curr_node = Some loc_curr \<longrightarrow>
          len_thres \<le> b_len scal loc_end loc_curr"
  proof (intro ballI allI impI)
    fix e pre b pe pb
    assume e: "e \<in> set (end_nodes_of g')"
      and a: "walk_to_branch g' (dfs_preorder_nodes g' e) [] = (pre, Some b) \<and>
          map_of (nx_nodes g') e = Some pe \<and> map_of (nx_nodes g') b = Some pb"
    show "len_thres \<le> b_len scal pe pb"
    proof (rule ccontr)
      assume "\<not> len_thres \<le> b_len scal pe pb"
      then have "b_len scal pe pb < len_thres" by simp
      with a have "short_stub scal len_thres g' e pre" unfolding short_stub_def by blast
      with fp e show False by blast
    qed
  qed
next
  fix g' assume "prune_pass scal len_thres g (end_nodes_of g) g = Inr g'"
  from prune_pass_removed[OF this]
  show "\<forall>v \<in> set (node_ids g) - set (node_ids g').
          \<exists>end_node \<in> set (end_nodes_of g). \<exists>prune_nodes.
             short_stub scal len_thres g end_node prune_nodes \<and> v \<in> set prune_nodes"
    by blast
qed

text \<open>
  Claim C3 fails on the code. A branch node 0 with the tips 3 and 4 far away and the stub
  2 -- 1 -- 0, which runs 1000 out and back: the path from the tip 2 to the branch node
  is 1999 long, more than the threshold 800, but its ends are 1 apart, and the loop
  removes the stub. The graph that is left is connected and is its own minimum spanning
  tree, so it is the graph that \<^verbatim>\<open>prune_stub_branches\<close> returns: a path longer than
  the threshold has been removed.
\<close>

theorem prune_removes_long_path:
  "prune_loop (1, 1, 1) 800 \<lparr>nx_nodes = [(0, (0, 0, 0)), (1, (1000, 0, 0)), (2, (1, 0, 0)), (3, (5000, 0, 0)), (4, (0, 5000, 0))],
       nx_edges = [(0, 1), (1, 2), (0, 3), (0, 4)]\<rparr>
     = Inr \<lparr>nx_nodes = [(0, (0, 0, 0)), (3, (5000, 0, 0)), (4, (0, 5000, 0))], nx_edges = [(0, 3), (0, 4)]\<rparr> \<and>
   walk_to_branch \<lparr>nx_nodes = [(0, (0, 0, 0)), (1, (1000, 0, 0)), (2, (1, 0, 0)), (3, (5000, 0, 0)), (4, (0, 5000, 0))],
       nx_edges = [(0, 1), (1, 2), (0, 3), (0, 4)]\<rparr>
     (dfs_preorder_nodes \<lparr>nx_nodes = [(0, (0, 0, 0)), (1, (1000, 0, 0)), (2, (1, 0, 0)), (3, (5000, 0, 0)), (4, (0, 5000, 0))],
       nx_edges = [(0, 1), (1, 2), (0, 3), (0, 4)]\<rparr> 2) [] = ([2, 1], Some 0) \<and>
   path_length (1, 1, 1) [(1, 0, 0), (1000, 0, 0), (0, 0, 0)] = 1999 \<and>
   \<not> path_length (1, 1, 1) [(1, 0, 0), (1000, 0, 0), (0, 0, 0)] < 800 \<and>
   b_len (1, 1, 1) (1, 0, 0) (0, 0, 0) = 1 \<and>
   number_connected_components (node_ids \<lparr>nx_nodes = [(0, (0, 0, 0)), (3, (5000, 0, 0)), (4, (0, 5000, 0))], nx_edges = [(0, 3), (0, 4)]\<rparr>)
     (nx_edges \<lparr>nx_nodes = [(0, (0, 0, 0)), (3, (5000, 0, 0)), (4, (0, 5000, 0))], nx_edges = [(0, 3), (0, 4)]\<rparr>) = 1 \<and>
   canonical_tree (1, 1, 1) \<lparr>nx_nodes = [(0, (0, 0, 0)), (3, (5000, 0, 0)), (4, (0, 5000, 0))], nx_edges = [(0, 3), (0, 4)]\<rparr>
     = Inr \<lparr>nx_nodes = [(0, (0, 0, 0)), (3, (5000, 0, 0)), (4, (0, 5000, 0))], nx_edges = [(0, 3), (0, 4)]\<rparr>"
  by (simp add: prune_loop.simps prune_step_def end_nodes_of_def degree_def dfs_preorder_nodes_def
      node_ids_def remove_node_def b_len_def convert_coord_def vmul_def vsub_def norm3_axis scaled_def
      to_float_def number_connected_components_def connected_components_def union_lab_def
      canonical_tree_def minimum_spanning_tree_def edge_weight_def wsub_def)

text \<open>
  When the scale factors of the first two axes agree, the swap of the two coordinates and
  the added 1 cancel, and \<open>b_len\<close> is the physical straight-line distance of the two
  nodes.
\<close>

lemma b_len_straight_line:
  assumes "sx = sy"
  shows "b_len (sx, sy, sz) p q = norm3 (vsub (scaled p (sx, sy, sz)) (scaled q (sx, sy, sz)))"
proof -
  obtain px py pz where p: "p = (px, py, pz)" by (cases p)
  obtain qx qy qz where q: "q = (qx, qy, qz)" by (cases q)
  have e: "((1 + a) * s - (1 + b) * s) = (a * s - b * s)" for a b s :: real
    by (simp add: algebra_simps)
  show ?thesis
    unfolding p q b_len_def convert_coord_def scaled_def to_float_def vmul_def vsub_def norm3_def
    by (simp add: e assms add.commute)
qed

end
